theory Spec2Isabelle
  imports Main
begin

section \<open>JavaScript strings and decimal digits\<close>

text \<open>
  A JavaScript string is modelled as a \<open>string\<close>: one \<open>char\<close> per code unit
  (code units 0 to 255).  The regular expression class \<open>\d\<close> is the ten ASCII digits.
\<close>

definition is_digit :: "char \<Rightarrow> bool" where
  "is_digit c \<longleftrightarrow> 48 \<le> (of_char c :: nat) \<and> (of_char c :: nat) \<le> 57"

definition digit_val :: "char \<Rightarrow> nat" where
  "digit_val c = (of_char c :: nat) - 48"

definition digit_char :: "nat \<Rightarrow> char" where
  "digit_char d = char_of (48 + d)"

text \<open>The mathematical value of a string of decimal digits, most significant first.\<close>

definition digits_value :: "string \<Rightarrow> nat" where
  "digits_value s = foldl (\<lambda>acc c. 10 * acc + digit_val c) 0 s"

text \<open>The decimal numeral of a natural number, without leading zeros.\<close>

fun decimal :: "nat \<Rightarrow> string" where
  "decimal n = (if n < 10 then [digit_char n] else decimal (n div 10) @ [digit_char (n mod 10)])"

declare decimal.simps [simp del]

text \<open>\<open>String.prototype.split\<close> with a one-character separator.\<close>

fun split_on :: "char \<Rightarrow> string \<Rightarrow> string list" where
  "split_on sep [] = [[]]"
| "split_on sep (c # cs) =
     (if c = sep then [] # split_on sep cs
      else (case split_on sep cs of [] \<Rightarrow> [[c]] | p # ps \<Rightarrow> (c # p) # ps))"

text \<open>
  \<open>String.prototype.substring(start, end)\<close>: both indices are clamped to the length
  and swapped when \<open>start > end\<close>.
\<close>

definition substring :: "string \<Rightarrow> nat \<Rightarrow> nat \<Rightarrow> string" where
  "substring s start end' =
     (let a = min start (length s); b = min end' (length s);
          lo = min a b; hi = max a b
      in take (hi - lo) (drop lo s))"

section \<open>JavaScript Numbers with integral values\<close>

text \<open>
  A Number is an IEEE 754 binary64 value.  Every Number that the version code produces
  is an integer, an infinity or NaN, so a Number is modelled by its exact integer value.
  Negative zero is identified with zero: the only place where it can arise
  (\<open>parseInt\<close> of \<open>"-0"\<close>) feeds \<open>+ 1\<close>, which does not distinguish the two.
\<close>

datatype jsnum = Fin int | PosInf | NegInf | NaN

fun bitlen :: "nat \<Rightarrow> nat" where
  "bitlen n = (if n = 0 then 0 else Suc (bitlen (n div 2)))"

declare bitlen.simps [simp del]

text \<open>
  Rounding of a natural number to the nearest binary64 value, ties to even: a number of
  more than 53 bits keeps its 53 leading bits, the quotient by \<open>2 ^ e\<close>, rounded by the
  bits that are cut off.  \<open>None\<close> is the overflow to infinity.
\<close>

definition round_quotient :: "nat \<Rightarrow> nat \<Rightarrow> nat" where
  "round_quotient e n =
     (let q = n div 2 ^ e;
          r = n mod 2 ^ e;
          half = 2 ^ (e - 1)
      in if half < r \<or> (r = half \<and> odd q) then q + 1 else q)"

definition round_nat :: "nat \<Rightarrow> nat option" where
  "round_nat n =
     (if n < 2 ^ 53 then Some n
      else
        let e = bitlen n - 53;
            v = round_quotient e n * 2 ^ e
        in if 2 ^ 1024 \<le> v then None else Some v)"

definition to_double :: "int \<Rightarrow> jsnum" where
  "to_double i =
     (if 0 \<le> i then (case round_nat (nat i) of None \<Rightarrow> PosInf | Some v \<Rightarrow> Fin (int v))
      else (case round_nat (nat (- i)) of None \<Rightarrow> NegInf | Some v \<Rightarrow> Fin (- int v)))"

text \<open>\<open>x + 1\<close> (and \<open>x++\<close>) on Numbers: the exact sum, rounded.\<close>

fun js_succ :: "jsnum \<Rightarrow> jsnum" where
  "js_succ (Fin i) = to_double (i + 1)"
| "js_succ PosInf = PosInf"
| "js_succ NegInf = NegInf"
| "js_succ NaN = NaN"

text \<open>\<open>x < y\<close> on Numbers.\<close>

fun js_lt :: "jsnum \<Rightarrow> jsnum \<Rightarrow> bool" where
  "js_lt (Fin a) (Fin b) = (a < b)"
| "js_lt NaN _ = False"
| "js_lt _ NaN = False"
| "js_lt PosInf _ = False"
| "js_lt NegInf NegInf = False"
| "js_lt NegInf _ = True"
| "js_lt (Fin a) PosInf = True"
| "js_lt (Fin a) NegInf = False"

text \<open>
  \<open>Number(s)\<close> for a string of decimal digits: its mathematical value, rounded to the
  nearest Number, as V8 does for a numeral of any length.
\<close>

definition Number :: "string \<Rightarrow> jsnum" where
  "Number s = to_double (int (digits_value s))"

subsection \<open>Number to string\<close>

text \<open>
  \<open>Number::toString\<close> prints the decimal number with the fewest significant digits
  that still rounds to the given Number, and, among those, the one closest to it (an even
  last digit on a tie).
  \<open>shortest_from x j\<close> looks for such a decimal among the multiples of \<open>10 ^ j\<close>
  next to \<open>x\<close>, for \<open>j\<close> trailing zeros and then fewer; with no trailing zero the
  number \<open>x\<close> itself is the answer.
\<close>

definition rounds_to :: "nat \<Rightarrow> nat \<Rightarrow> bool" where
  "rounds_to c x \<longleftrightarrow> round_nat c = Some x"

fun shortest_from :: "nat \<Rightarrow> nat \<Rightarrow> nat" where
  "shortest_from x 0 = x"
| "shortest_from x (Suc j) =
     (let p = 10 ^ Suc j;
          lo = (x div p) * p;
          hi = lo + p;
          lo_ok = (0 < lo \<and> rounds_to lo x);
          hi_ok = rounds_to hi x
      in if lo_ok \<and> hi_ok then
           (if x - lo < hi - x then lo
            else if hi - x < x - lo then hi
            else if even (x div p) then lo else hi)
         else if lo_ok then lo
         else if hi_ok then hi
         else shortest_from x j)"

definition shortest_decimal :: "nat \<Rightarrow> nat" where
  "shortest_decimal x = shortest_from x (length (decimal x))"

text \<open>The significant digits of a decimal numeral: trailing zeros removed.\<close>

definition strip_zeros :: "string \<Rightarrow> string" where
  "strip_zeros ds = rev (dropWhile (\<lambda>c. c = CHR ''0'') (rev ds))"

text \<open>
  Printing a positive integer \<open>y\<close>: plain digits below \<open>10 ^ 21\<close>, exponent notation
  from there on.
\<close>

definition print_decimal :: "nat \<Rightarrow> string" where
  "print_decimal y =
     (if y < 10 ^ 21 then decimal y
      else
        let ds = decimal y; e = length ds - 1; s = strip_zeros ds
        in (if length s = 1 then s else hd s # CHR ''.'' # tl s) @ ''e+'' @ decimal e)"

fun js_to_string :: "jsnum \<Rightarrow> string" where
  "js_to_string NaN = ''NaN''"
| "js_to_string PosInf = ''Infinity''"
| "js_to_string NegInf = ''-Infinity''"
| "js_to_string (Fin i) =
     (if i = 0 then ''0''
      else if i < 0 then CHR ''-'' # print_decimal (shortest_decimal (nat (- i)))
      else print_decimal (shortest_decimal (nat i)))"

section \<open>VersionManager.calculateNextVersion\<close>

text \<open>
  A thrown \<open>Error\<close> carries its message; \<open>process.exit(1)\<close> after
  \<open>console.error\<close> carries the exit status and the message.
\<close>

datatype failure = Error string | ProcessExit nat string

text \<open>
  The regular expression \<open>/^(\d+)\.(\d+)\.(\d+)$/\<close>.  A greedy run of digits is
  followed by a literal dot, which is no digit, so the match is deterministic:
  \<open>digits1\<close> is \<open>(\d+)\<close>, \<open>expect_dot\<close> is \<open>\.\<close>, and the final test is \<open>$\<close>.
\<close>

definition digits1 :: "string \<Rightarrow> (string \<times> string) option" where
  "digits1 s =
     (if takeWhile is_digit s = [] then None
      else Some (takeWhile is_digit s, dropWhile is_digit s))"

definition expect_dot :: "string \<Rightarrow> string option" where
  "expect_dot s = (case s of [] \<Rightarrow> None | c # r \<Rightarrow> if c = CHR ''.'' then Some r else None)"

definition match_version :: "string \<Rightarrow> (string \<times> string \<times> string) option" where
  "match_version s =
     (case digits1 s of None \<Rightarrow> None | Some (major, r1) \<Rightarrow>
     (case expect_dot r1 of None \<Rightarrow> None | Some r2 \<Rightarrow>
     (case digits1 r2 of None \<Rightarrow> None | Some (minor, r3) \<Rightarrow>
     (case expect_dot r3 of None \<Rightarrow> None | Some r4 \<Rightarrow>
     (case digits1 r4 of None \<Rightarrow> None | Some (patch, r5) \<Rightarrow>
        if r5 = [] then Some (major, minor, patch) else None)))))"

text \<open>The template literal \<open>`${major}.${minor}.${patch}`\<close>.\<close>

definition render :: "jsnum \<Rightarrow> jsnum \<Rightarrow> jsnum \<Rightarrow> string" where
  "render major minor patch =
     js_to_string major @ ''.'' @ js_to_string minor @ ''.'' @ js_to_string patch"

text \<open>
  \<open>calculateNextVersion (currentVersion, increment = 'patch')\<close>.  The selector is
  \<open>None\<close> when the argument is omitted (\<open>undefined\<close>); the \<open>switch\<close> sends every
  selector other than \<open>'major'\<close> and \<open>'minor'\<close> to the patch branch.
\<close>

definition calculateNextVersion :: "string \<Rightarrow> string option \<Rightarrow> failure + string" where
  "calculateNextVersion currentVersion increment_arg =
     (let increment = (case increment_arg of None \<Rightarrow> ''patch'' | Some i \<Rightarrow> i) in
      case match_version currentVersion of
        None \<Rightarrow> Inl (Error (''Invalid version format: '' @ currentVersion))
      | Some (a, b, c) \<Rightarrow>
          let major = Number a; minor = Number b; patch = Number c in
          if increment = ''major'' then Inr (render (js_succ major) (Fin 0) (Fin 0))
          else if increment = ''minor'' then Inr (render major (js_succ minor) (Fin 0))
          else if patch = Fin 0 then Inr (render major minor (Fin 100))
          else Inr (render major minor (js_succ patch)))"

section \<open>The version bump script\<close>

text \<open>
  The elements of \<open>versionParts\<close>: the strings that \<open>split\<close> returns, the
  Numbers assigned to them, and \<open>undefined\<close> for an index that was never written.
\<close>

datatype jsval = Str string | Num jsnum | Undefined

fun val_to_string :: "jsval \<Rightarrow> string" where
  "val_to_string (Str s) = s"
| "val_to_string (Num n) = js_to_string n"
| "val_to_string Undefined = ''undefined''"

text \<open>Reading an index out of range yields \<open>undefined\<close>; writing one extends the array.\<close>

definition array_get :: "jsval list \<Rightarrow> nat \<Rightarrow> jsval" where
  "array_get xs i = (if i < length xs then xs ! i else Undefined)"

definition array_set :: "jsval list \<Rightarrow> nat \<Rightarrow> jsval \<Rightarrow> jsval list" where
  "array_set xs i v =
     (if i < length xs then xs[i := v]
      else xs @ replicate (i - length xs) Undefined @ [v])"

text \<open>\<open>Array.prototype.join('.')\<close>: \<open>undefined\<close> elements print as the empty string.\<close>

fun join_elem :: "jsval \<Rightarrow> string" where
  "join_elem Undefined = []"
| "join_elem v = val_to_string v"

fun join_dot :: "jsval list \<Rightarrow> string" where
  "join_dot [] = []"
| "join_dot [x] = join_elem x"
| "join_dot (x # y # ys) = join_elem x @ ''.'' @ join_dot (y # ys)"

text \<open>
  \<open>parseInt(v, 10)\<close>: the argument is converted to a string, leading white space is
  skipped, an optional sign is read, and the longest prefix of decimal digits is the
  value; without a digit the result is NaN.
\<close>

definition is_js_space :: "char \<Rightarrow> bool" where
  "is_js_space c \<longleftrightarrow> (of_char c :: nat) \<in> {9, 10, 11, 12, 13, 32, 160}"

definition parseInt10 :: "jsval \<Rightarrow> jsnum" where
  "parseInt10 v =
     (let t = dropWhile is_js_space (val_to_string v);
          neg = (t \<noteq> [] \<and> hd t = CHR ''-'');
          u = (if t \<noteq> [] \<and> (hd t = CHR ''-'' \<or> hd t = CHR ''+'') then tl t else t);
          z = takeWhile is_digit u
      in if z = [] then NaN
         else if neg then to_double (- int (digits_value z))
         else to_double (int (digits_value z)))"

text \<open>\<open>process.argv[2] || 'patch'\<close>: an absent or empty argument becomes \<open>'patch'\<close>.\<close>

definition versionBumpType :: "string option \<Rightarrow> string" where
  "versionBumpType argv2 =
     (case argv2 of None \<Rightarrow> ''patch'' | Some a \<Rightarrow> if a = [] then ''patch'' else a)"

definition quoted :: "string \<Rightarrow> string" where
  "quoted s = CHR 0x22 # s @ [CHR 0x22]"

text \<open>
  \<open>upgradePackageJSONVersion\<close>, as a function of the selector and of the \<open>version\<close>
  string read from \<open>package.json\<close>.  The result on the right is the line printed to
  standard output, which is also the value returned.
\<close>

definition upgradePackageJSONVersion :: "string \<Rightarrow> string \<Rightarrow> failure + string" where
  "upgradePackageJSONVersion bumpType version =
     (let versionParts = map Str (split_on CHR ''.'' version) in
      if bumpType = ''patch'' then
        (let n = js_succ (parseInt10 (array_get versionParts 2));
             vp1 = array_set versionParts 2 (Num n);
             vp2 = (if js_lt n (Fin 100) then array_set vp1 2 (Num (Fin 100)) else vp1)
         in Inr (join_dot vp2))
      else if bumpType = ''minor'' then
        (let vp1 = array_set versionParts 1 (Num (js_succ (parseInt10 (array_get versionParts 1))));
             vp2 = array_set vp1 2 (Num (Fin 0))
         in Inr (join_dot vp2))
      else if bumpType = ''major'' then
        (let vp1 = array_set versionParts 0 (Num (js_succ (parseInt10 (array_get versionParts 0))));
             vp2 = array_set vp1 1 (Num (Fin 0));
             vp3 = array_set vp2 2 (Num (Fin 0))
         in Inr (join_dot vp3))
      else Inl (ProcessExit 1
             (''Invalid version bump type. Please specify '' @ quoted ''patch'' @ '', '' @
              quoted ''minor'' @ '', or '' @ quoted ''major'' @ ''.'')))"

text \<open>The script as run: the selector check at the top, then the upgrade.\<close>

definition upgrade_version_script :: "string option \<Rightarrow> string \<Rightarrow> failure + string" where
  "upgrade_version_script argv2 version =
     (let bumpType = versionBumpType argv2 in
      if bumpType \<notin> set [''major'', ''minor'', ''patch'']
      then Inl (ProcessExit 1 ''Invalid version bump type. Use major, minor, or patch.'')
      else upgradePackageJSONVersion bumpType version)"

section \<open>ChangelogManager.generateChangelogEntry\<close>

record commitData =
  sha :: string
  author :: string
  message :: string

abbreviation nl :: char where
  "nl \<equiv> CHR 0x0A"

text \<open>
  \<open>generateChangelogEntry (version, commitData)\<close> reads the system clock:
  \<open>now_iso\<close> is what \<open>new Date().toISOString()\<close> returns at the call.  The first
  element of a \<open>split\<close> always exists.
\<close>

definition currentDate :: "string \<Rightarrow> string" where
  "currentDate now_iso = (case split_on CHR ''T'' now_iso of [] \<Rightarrow> ''undefined'' | d # _ \<Rightarrow> d)"

definition generateChangelogEntry :: "string \<Rightarrow> string \<Rightarrow> commitData \<Rightarrow> string" where
  "generateChangelogEntry now_iso version cd =
     (let shortSha = substring (sha cd) 0 7 in
      ''## ['' @ version @ ''] - '' @ currentDate now_iso @ [nl] @
      [nl] @
      ''**Author:** '' @ author cd @ [nl] @
      ''**Commit:** ['' @ shortSha @ ''](https://github.com/owner/repo/commit/'' @ sha cd @ '')'' @ [nl] @
      ''**Message:** '' @ message cd @ [nl] @
      [nl])"

section \<open>The textual form of a semantic version\<close>

text \<open>
  The dotted triplet of three natural numbers, each written in decimal without leading
  zeros.
\<close>

definition version_text :: "nat \<Rightarrow> nat \<Rightarrow> nat \<Rightarrow> string" where
  "version_text major minor patch = decimal major @ ''.'' @ decimal minor @ ''.'' @ decimal patch"

text \<open>
  Every natural number up to \<open>2 ^ 53\<close> is a Number; \<open>2 ^ 53 + 1\<close> is the first that
  is not.  \<open>Number.MAX_SAFE_INTEGER\<close> is \<open>2 ^ 53 - 1\<close>.
\<close>

definition precision_limit :: nat where
  "precision_limit = 2 ^ 53"

definition MAX_SAFE_INTEGER :: nat where
  "MAX_SAFE_INTEGER = precision_limit - 1"

text \<open>
  From \<open>10 ^ 21\<close> on a Number prints in exponent notation.  \<open>last_plain\<close> is the
  largest Number below \<open>10 ^ 21\<close>, and \<open>print_limit\<close> the largest natural number
  that rounds to it: \<open>print_limit + 1\<close> rounds to \<open>10 ^ 21\<close>.
\<close>

definition last_plain :: nat where
  "last_plain = 999999999999999868928"

definition print_limit :: nat where
  "print_limit = 999999999999999934463"

text \<open>
  \<open>x + 1\<close> as the Numbers compute it, on the naturals up to \<open>2 ^ 53\<close>: the sum
  \<open>2 ^ 53 + 1\<close> rounds back to \<open>2 ^ 53\<close>.
\<close>

definition next_number :: "nat \<Rightarrow> nat" where
  "next_number x = (if x < precision_limit then x + 1 else x)"

text \<open>A version string matches the pattern and each of its components is at most \<open>bound\<close>.\<close>

definition components_upto :: "nat \<Rightarrow> string \<Rightarrow> bool" where
  "components_upto bound s =
     (case match_version s of
        None \<Rightarrow> False
      | Some (a, b, c) \<Rightarrow>
          digits_value a \<le> bound \<and> digits_value b \<le> bound \<and> digits_value c \<le> bound)"

text \<open>
  A caller that bumps a version again and again, one selector per round, and stops at
  the first error.
\<close>

fun bump_repeatedly :: "string option list \<Rightarrow> string \<Rightarrow> failure + string" where
  "bump_repeatedly [] v = Inr v"
| "bump_repeatedly (k # ks) v =
     (case calculateNextVersion v k of Inl e \<Rightarrow> Inl e | Inr v' \<Rightarrow> bump_repeatedly ks v')"

text \<open>
  A version component in canonical form: a non-empty run of decimal digits that is
  \<open>0\<close> itself or does not start with \<open>0\<close>.
\<close>

definition canonical_numeral :: "string \<Rightarrow> bool" where
  "canonical_numeral x \<longleftrightarrow>
     x \<noteq> [] \<and> list_all is_digit x \<and> (hd x = CHR ''0'' \<longrightarrow> x = ''0'')"

section \<open>Decimal digits\<close>

lemma is_digit_digit_char: "d < 10 \<Longrightarrow> is_digit (digit_char d)"
  by (simp add: is_digit_def digit_char_def)

lemma digit_val_digit_char: "d < 10 \<Longrightarrow> digit_val (digit_char d) = d"
  by (simp add: digit_val_def digit_char_def)

lemma digit_char_digit_val: "is_digit c \<Longrightarrow> digit_char (digit_val c) = c"
  by (simp add: digit_char_def digit_val_def is_digit_def)

lemma digit_char_simps:
  "digit_char 0 = CHR ''0''" "digit_char 1 = CHR ''1''" "digit_char 2 = CHR ''2''"
  "digit_char 3 = CHR ''3''" "digit_char 4 = CHR ''4''" "digit_char 5 = CHR ''5''"
  "digit_char 6 = CHR ''6''" "digit_char 7 = CHR ''7''" "digit_char 8 = CHR ''8''"
  "digit_char 9 = CHR ''9''"
proof -
  note d = digit_char_digit_val
  show "digit_char 0 = CHR ''0''" using d[of "CHR ''0''"] by (simp add: is_digit_def digit_val_def)
  show "digit_char 1 = CHR ''1''" using d[of "CHR ''1''"] by (simp add: is_digit_def digit_val_def)
  show "digit_char 2 = CHR ''2''" using d[of "CHR ''2''"] by (simp add: is_digit_def digit_val_def)
  show "digit_char 3 = CHR ''3''" using d[of "CHR ''3''"] by (simp add: is_digit_def digit_val_def)
  show "digit_char 4 = CHR ''4''" using d[of "CHR ''4''"] by (simp add: is_digit_def digit_val_def)
  show "digit_char 5 = CHR ''5''" using d[of "CHR ''5''"] by (simp add: is_digit_def digit_val_def)
  show "digit_char 6 = CHR ''6''" using d[of "CHR ''6''"] by (simp add: is_digit_def digit_val_def)
  show "digit_char 7 = CHR ''7''" using d[of "CHR ''7''"] by (simp add: is_digit_def digit_val_def)
  show "digit_char 8 = CHR ''8''" using d[of "CHR ''8''"] by (simp add: is_digit_def digit_val_def)
  show "digit_char 9 = CHR ''9''" using d[of "CHR ''9''"] by (simp add: is_digit_def digit_val_def)
qed

lemma digit_char_Suc0: "digit_char (Suc 0) = CHR ''1''"
  using digit_char_simps(2) by simp

lemma not_digit_dot: "\<not> is_digit CHR ''.''"
  by (simp add: is_digit_def)

lemma decimal_ne: "decimal n \<noteq> []"
  by (subst decimal.simps) simp

lemma decimal_digits: "c \<in> set (decimal n) \<Longrightarrow> is_digit c"
proof (induction n arbitrary: c rule: decimal.induct)
  case (1 n)
  show ?case
  proof (cases "n < 10")
    case True
    with "1.prems" show ?thesis
      by (subst (asm) decimal.simps) (simp add: is_digit_digit_char)
  next
    case False
    with "1.prems" have "c \<in> set (decimal (n div 10)) \<or> c = digit_char (n mod 10)"
      by (subst (asm) decimal.simps) auto
    with False "1.IH" show ?thesis
      by (auto simp: is_digit_digit_char)
  qed
qed

lemma digits_value_snoc: "digits_value (xs @ [c]) = 10 * digits_value xs + digit_val c"
  by (simp add: digits_value_def)

lemma digits_value_decimal: "digits_value (decimal n) = n"
proof (induction n rule: decimal.induct)
  case (1 n)
  show ?case
  proof (cases "n < 10")
    case True
    then show ?thesis
      by (subst decimal.simps) (simp add: digits_value_def digit_val_digit_char)
  next
    case False
    with "1.IH" have "digits_value (decimal (n div 10)) = n div 10" by simp
    with False show ?thesis
      by (subst decimal.simps) (simp add: digits_value_snoc digit_val_digit_char)
  qed
qed

lemma decimal_inj: "decimal m = decimal n \<Longrightarrow> m = n"
  by (metis digits_value_decimal)

lemma hd_decimal: "0 < n \<Longrightarrow> hd (decimal n) \<noteq> CHR ''0''"
proof (induction n rule: decimal.induct)
  case (1 n)
  show ?case
  proof (cases "n < 10")
    case True
    with "1.prems" have "digit_val (digit_char n) \<noteq> digit_val CHR ''0''"
      by (simp add: digit_val_digit_char) (simp add: digit_val_def)
    then have "digit_char n \<noteq> CHR ''0''" by auto
    with True show ?thesis by (subst decimal.simps) simp
  next
    case False
    then have "0 < n div 10" by simp
    with False "1.IH" have "hd (decimal (n div 10)) \<noteq> CHR ''0''" by simp
    with False show ?thesis
      by (subst decimal.simps) (simp add: decimal_ne)
  qed
qed

section \<open>The version pattern\<close>

lemma digits1_digits_dot:
  assumes "a \<noteq> []" "\<forall>c\<in>set a. is_digit c"
  shows "digits1 (a @ CHR ''.'' # r) = Some (a, CHR ''.'' # r)"
  using assms by (cases a) (simp_all add: digits1_def not_digit_dot)

lemma digits1_digits_end:
  assumes "a \<noteq> []" "\<forall>c\<in>set a. is_digit c"
  shows "digits1 a = Some (a, [])"
  using assms by (cases a) (simp_all add: digits1_def)

lemma match_version_dotted:
  assumes "a \<noteq> []" "\<forall>c\<in>set a. is_digit c"
      and "b \<noteq> []" "\<forall>c\<in>set b. is_digit c"
      and "c \<noteq> []" "\<forall>x\<in>set c. is_digit x"
  shows "match_version (a @ ''.'' @ b @ ''.'' @ c) = Some (a, b, c)"
  using assms
  by (simp add: match_version_def digits1_digits_dot digits1_digits_end expect_dot_def)

lemma digits1_SomeD:
  "digits1 s = Some (a, r) \<Longrightarrow> s = a @ r \<and> a \<noteq> [] \<and> (\<forall>c\<in>set a. is_digit c)"
  by (auto simp: digits1_def split: if_splits dest: set_takeWhileD)

lemma expect_dot_SomeD: "expect_dot s = Some r \<Longrightarrow> s = CHR ''.'' # r"
  by (auto simp: expect_dot_def split: list.splits if_splits)

lemma match_version_SomeD:
  assumes "match_version s = Some (a, b, c)"
  shows "s = a @ ''.'' @ b @ ''.'' @ c"
    and "a \<noteq> []" "\<forall>x\<in>set a. is_digit x"
    and "b \<noteq> []" "\<forall>x\<in>set b. is_digit x"
    and "c \<noteq> []" "\<forall>x\<in>set c. is_digit x"
  using assms
  by (auto simp: match_version_def split: option.splits prod.splits if_splits
      dest!: digits1_SomeD expect_dot_SomeD)

text \<open>
  The matcher accepts exactly the language of the pattern: three non-empty runs of
  digits separated by two dots.
\<close>

lemma match_version_iff_pattern:
  "match_version s = Some (a, b, c) \<longleftrightarrow>
     s = a @ ''.'' @ b @ ''.'' @ c \<and>
     a \<noteq> [] \<and> (\<forall>x\<in>set a. is_digit x) \<and>
     b \<noteq> [] \<and> (\<forall>x\<in>set b. is_digit x) \<and>
     c \<noteq> [] \<and> (\<forall>x\<in>set c. is_digit x)"
  using match_version_SomeD[of s a b c] match_version_dotted[of a b c] by blast

lemma match_version_text:
  "match_version (version_text major minor patch) = Some (decimal major, decimal minor, decimal patch)"
  unfolding version_text_def
  by (rule match_version_dotted) (simp_all add: decimal_ne decimal_digits)

lemma invalid_examples:
  "match_version ''1.2'' = None" "match_version ''1.2.3.4'' = None"
  "match_version ''1.a.3'' = None" "match_version ''v1.2.3'' = None"
  "match_version '' 1.2.3'' = None" "match_version ''1.2.3 '' = None"
  by (simp_all add: match_version_def digits1_def expect_dot_def is_digit_def)

section \<open>Rounding and printing of Numbers\<close>

lemma round_nat_small: "n < 2 ^ 53 \<Longrightarrow> round_nat n = Some n"
  by (simp add: round_nat_def)

lemma bitlen_lower: "0 < n \<Longrightarrow> 2 ^ (bitlen n - 1) \<le> n"
proof (induction n rule: bitlen.induct)
  case (1 n)
  show ?case
  proof (cases "n div 2 = 0")
    case True
    with "1.prems" have "n = 1" by (simp add: div_eq_0_iff)
    moreover have "bitlen (Suc 0) = Suc 0"
      by (simp add: bitlen.simps[of "Suc 0"] bitlen.simps[of 0])
    ultimately show ?thesis by simp
  next
    case False
    with "1.IH" "1.prems" have ih: "2 ^ (bitlen (n div 2) - 1) \<le> n div 2" by simp
    from False have pos: "0 < bitlen (n div 2)"
      by (subst bitlen.simps) simp
    from "1.prems" have "bitlen n = Suc (bitlen (n div 2))"
      by (subst bitlen.simps) simp
    then have "2 ^ (bitlen n - 1) = (2::nat) * 2 ^ (bitlen (n div 2) - 1)"
      using pos by (cases "bitlen (n div 2)") simp_all
    also have "\<dots> \<le> 2 * (n div 2)" using ih by simp
    also have "\<dots> \<le> n" by simp
    finally show ?thesis .
  qed
qed

lemma bitlen_upper: "n < 2 ^ bitlen n"
proof (induction n rule: bitlen.induct)
  case (1 n)
  show ?case
  proof (cases "n = 0")
    case True
    then show ?thesis by simp
  next
    case False
    with "1.IH" have ih: "n div 2 < 2 ^ bitlen (n div 2)" by simp
    from False have "bitlen n = Suc (bitlen (n div 2))"
      by (subst bitlen.simps) simp
    moreover from ih have "n < 2 * 2 ^ bitlen (n div 2)" by linarith
    ultimately show ?thesis by simp
  qed
qed

lemma bitlen_ge: "2 ^ k \<le> n \<Longrightarrow> k < bitlen n"
proof (rule ccontr)
  assume a: "2 ^ k \<le> n" and "\<not> k < bitlen n"
  then have "bitlen n \<le> k" by simp
  then have "(2::nat) ^ bitlen n \<le> 2 ^ k" by (rule power_increasing) simp
  with bitlen_upper[of n] a show False by linarith
qed

text \<open>Rounding never takes a number from \<open>2 ^ 53\<close> on below \<open>2 ^ 53\<close>.\<close>

lemma round_nat_large:
  assumes "2 ^ 53 \<le> n" and "round_nat n = Some v"
  shows "2 ^ 53 \<le> v"
proof -
  define e where "e = bitlen n - 53"
  define q where "q = n div 2 ^ e"
  from assms(1) have bl: "53 < bitlen n" by (rule bitlen_ge)
  from assms(1) have npos: "0 < n" by (simp add: order.strict_trans2[of 0 "2^53"])
  have "2 ^ (bitlen n - 1) \<le> n" using npos by (rule bitlen_lower)
  moreover have "bitlen n - 1 = 52 + e" using bl by (simp add: e_def)
  ultimately have "2 ^ 52 * 2 ^ e \<le> n" by (simp add: power_add)
  then have qlow: "2 ^ 52 \<le> q"
    unfolding q_def by (simp add: less_eq_div_iff_mult_less_eq)
  have epos: "1 \<le> e" using bl by (simp add: e_def)
  from assms have "v = q * 2 ^ e \<or> v = (q + 1) * 2 ^ e"
    by (auto simp: round_nat_def round_quotient_def Let_def e_def q_def split: if_splits)
  then have "q * 2 ^ e \<le> v" by auto
  moreover have "(2::nat) ^ 52 * 2 ^ 1 \<le> q * 2 ^ e"
  proof (rule mult_le_mono)
    show "2 ^ 52 \<le> q" by (rule qlow)
    show "(2::nat) ^ 1 \<le> 2 ^ e" using epos by (intro power_increasing) simp_all
  qed
  moreover have "(2::nat) ^ 52 * 2 ^ 1 = 2 ^ 53" by simp
  ultimately show ?thesis by linarith
qed

lemma round_nat_eq_small:
  assumes "x < 2 ^ 53" and "round_nat c = Some x"
  shows "c = x"
proof (cases "c < 2 ^ 53")
  case True
  with assms(2) show ?thesis by (simp add: round_nat_small)
next
  case False
  then have "2 ^ 53 \<le> c" by simp
  from this assms(2) have "2 ^ 53 \<le> x" by (rule round_nat_large)
  with assms(1) show ?thesis by simp
qed

text \<open>Rounding is monotone.\<close>

lemma bitlen_mono: "m \<le> n \<Longrightarrow> bitlen m \<le> bitlen n"
proof (rule ccontr)
  assume mn: "m \<le> n" and "\<not> bitlen m \<le> bitlen n"
  then have lt: "bitlen n < bitlen m" by simp
  then have "0 < bitlen m" by simp
  then have "0 < m" by (cases "m = 0") (simp_all add: bitlen.simps[of 0])
  then have "2 ^ (bitlen m - 1) \<le> m" by (rule bitlen_lower)
  moreover have "(2::nat) ^ bitlen n \<le> 2 ^ (bitlen m - 1)"
    using lt by (intro power_increasing) simp_all
  ultimately show False using bitlen_upper[of n] mn by linarith
qed

lemma round_quotient_bounds:
  "n div 2 ^ e \<le> round_quotient e n" "round_quotient e n \<le> n div 2 ^ e + 1"
  by (simp_all add: round_quotient_def Let_def)

lemma round_quotient_mono:
  assumes "m \<le> n"
  shows "round_quotient e m \<le> round_quotient e n"
proof (cases "m div 2 ^ e = n div 2 ^ e")
  case True
  have "m mod 2 ^ e = m - (m div 2 ^ e) * 2 ^ e" "n mod 2 ^ e = n - (n div 2 ^ e) * 2 ^ e"
    by (simp_all add: minus_div_mult_eq_mod)
  with True assms have "m mod 2 ^ e \<le> n mod 2 ^ e"
    by (simp add: diff_le_mono)
  with True show ?thesis
    by (auto simp: round_quotient_def Let_def)
next
  case False
  have "m div 2 ^ e \<le> n div 2 ^ e" using assms by (rule div_le_mono)
  with False have "m div 2 ^ e + 1 \<le> n div 2 ^ e" by simp
  with round_quotient_bounds(2)[of e m] round_quotient_bounds(1)[of n e]
  show ?thesis by linarith
qed

lemma round_nat_mono:
  assumes mn: "m \<le> n" and v: "round_nat n = Some v"
  shows "\<exists>u. round_nat m = Some u \<and> u \<le> v"
proof (cases "m < 2 ^ 53")
  case True
  show ?thesis
  proof (cases "n < 2 ^ 53")
    case n: True
    with True mn v show ?thesis by (simp add: round_nat_small)
  next
    case False
    then have "2 ^ 53 \<le> n" by simp
    from this v have "2 ^ 53 \<le> v" by (rule round_nat_large)
    with True show ?thesis by (simp add: round_nat_small)
  qed
next
  case False
  then have m53: "2 ^ 53 \<le> m" by simp
  with mn have n53: "2 ^ 53 \<le> n" by simp
  define em where "em = bitlen m - 53"
  define en where "en = bitlen n - 53"
  from m53 have blm: "53 < bitlen m" by (rule bitlen_ge)
  from n53 have bln: "53 < bitlen n" by (rule bitlen_ge)
  have emn: "em \<le> en" using bitlen_mono[OF mn] by (simp add: em_def en_def)
  from v n53 have vv: "v = round_quotient en n * 2 ^ en" and vlt: "v < 2 ^ 1024"
    by (auto simp: round_nat_def Let_def en_def split: if_splits)
  have le: "round_quotient em m * 2 ^ em \<le> v"
  proof (cases "em = en")
    case True
    then show ?thesis using round_quotient_mono[OF mn, of en] by (simp add: vv)
  next
    case False
    with emn have lt: "em + 1 \<le> en" by simp
    have "m < 2 ^ bitlen m" by (rule bitlen_upper)
    moreover have "bitlen m = 53 + em" using blm by (simp add: em_def)
    ultimately have "m < 2 ^ 53 * 2 ^ em" by (simp add: power_add)
    then have "m div 2 ^ em < 2 ^ 53"
      by (simp add: less_mult_imp_div_less)
    then have "round_quotient em m \<le> 2 ^ 53"
      using round_quotient_bounds(2)[of em m] by linarith
    then have "round_quotient em m * 2 ^ em \<le> 2 ^ 53 * 2 ^ em" by simp
    also have "\<dots> = 2 ^ (52 + (em + 1))" by (simp add: power_add)
    also have "\<dots> \<le> 2 ^ (52 + en)" using lt by (intro power_increasing) simp_all
    also have "\<dots> \<le> (n div 2 ^ en) * 2 ^ en"
    proof -
      from n53 have "0 < n" by (simp add: order.strict_trans2[of 0 "2^53"])
      then have "2 ^ (bitlen n - 1) \<le> n" by (rule bitlen_lower)
      moreover have "bitlen n - 1 = 52 + en" using bln by (simp add: en_def)
      ultimately have "2 ^ 52 * 2 ^ en \<le> n" by (simp add: power_add)
      then have "2 ^ 52 \<le> n div 2 ^ en" by (simp add: less_eq_div_iff_mult_less_eq)
      then show ?thesis by (simp add: power_add)
    qed
    also have "\<dots> \<le> v" using round_quotient_bounds(1)[of n en] by (simp add: vv)
    finally show ?thesis .
  qed
  with vlt have "round_quotient em m * 2 ^ em < 2 ^ 1024" by linarith
  with False have "round_nat m = Some (round_quotient em m * 2 ^ em)"
    by (simp add: round_nat_def Let_def em_def)
  with le show ?thesis by simp
qed

text \<open>Below \<open>2 ^ 53\<close> the shortest decimal that rounds to a number is the number itself.\<close>

lemma shortest_from_small: "x < 2 ^ 53 \<Longrightarrow> shortest_from x j = x"
proof (induction j)
  case 0
  then show ?case by simp
next
  case (Suc j)
  have c: "rounds_to c x \<Longrightarrow> c = x" for c
    unfolding rounds_to_def using Suc.prems by (rule round_nat_eq_small)
  from Suc show ?case
    by (auto simp: Let_def dest: c)
qed

section \<open>Versions with components up to the precision limit\<close>

lemma precision_limit_numeral: "precision_limit = 9007199254740992"
  by (simp add: precision_limit_def)

lemma round_nat_limit: "round_nat precision_limit = Some precision_limit"
  by (simp add: precision_limit_numeral round_nat_def round_quotient_def Let_def bitlen.simps)

lemma round_nat_limit_1: "round_nat (Suc precision_limit) = Some precision_limit"
  by (simp add: precision_limit_numeral round_nat_def round_quotient_def Let_def bitlen.simps)

lemma round_nat_upto: "n \<le> precision_limit \<Longrightarrow> round_nat n = Some n"
  using round_nat_small[of n] round_nat_limit
  by (cases "n = precision_limit") (simp_all add: precision_limit_def)

lemma decimal_limit: "decimal 9007199254740992 = ''9007199254740992''"
  by (simp add: decimal.simps digit_char_simps digit_char_Suc0)

lemma shortest_limit: "shortest_decimal precision_limit = precision_limit"
  by (simp add: precision_limit_numeral decimal_limit shortest_decimal_def rounds_to_def
      round_nat_def round_quotient_def Let_def bitlen.simps)

lemma shortest_upto: "x \<le> precision_limit \<Longrightarrow> shortest_decimal x = x"
  using shortest_from_small[of x] shortest_limit
  by (cases "x = precision_limit") (simp_all add: shortest_decimal_def precision_limit_def)

lemma decimal_0: "decimal 0 = ''0''"
  by (simp add: decimal.simps[of 0] digit_char_simps)

lemma decimal_100: "decimal 100 = ''100''"
  by (simp add: decimal.simps digit_char_simps digit_char_Suc0)

lemma js_to_string_upto:
  assumes "n \<le> precision_limit"
  shows "js_to_string (Fin (int n)) = decimal n"
proof (cases "n = 0")
  case True
  then show ?thesis by (simp add: decimal_0)
next
  case False
  have "n < 10 ^ 21" using assms by (simp add: precision_limit_def)
  with False assms show ?thesis
    by (simp add: shortest_upto print_decimal_def)
qed

lemma to_double_upto: "n \<le> precision_limit \<Longrightarrow> to_double (int n) = Fin (int n)"
  by (simp add: to_double_def round_nat_upto)

lemma Number_upto:
  "digits_value s \<le> precision_limit \<Longrightarrow> Number s = Fin (int (digits_value s))"
  by (simp add: Number_def to_double_upto)

lemma js_succ_upto:
  assumes "n \<le> precision_limit"
  shows "js_succ (Fin (int n)) = Fin (int (next_number n))"
proof (cases "n = precision_limit")
  case True
  have "nat (int precision_limit + 1) = precision_limit + 1" by simp
  with True show ?thesis
    by (simp add: to_double_def round_nat_limit_1 next_number_def)
next
  case False
  with assms have "n + 1 \<le> precision_limit" by simp
  then have "to_double (int (n + 1)) = Fin (int (n + 1))" by (rule to_double_upto)
  with False assms show ?thesis by (simp add: next_number_def add.commute)
qed

lemma next_number_upto: "n \<le> precision_limit \<Longrightarrow> next_number n \<le> precision_limit"
  by (simp add: next_number_def)

lemma next_number_safe: "n \<le> MAX_SAFE_INTEGER \<Longrightarrow> next_number n = n + 1"
  by (simp add: next_number_def MAX_SAFE_INTEGER_def precision_limit_def)

lemma render_upto:
  assumes "A \<le> precision_limit" "B \<le> precision_limit" "C \<le> precision_limit"
  shows "render (Fin (int A)) (Fin (int B)) (Fin (int C)) = version_text A B C"
  using assms by (simp only: render_def version_text_def js_to_string_upto)

text \<open>The next version of a matching string whose components are at most \<open>2 ^ 53\<close>.\<close>

lemma calc_upto:
  assumes m: "match_version s = Some (a, b, c)"
      and a: "digits_value a \<le> precision_limit" and b: "digits_value b \<le> precision_limit"
      and c: "digits_value c \<le> precision_limit"
  shows "calculateNextVersion s k = Inr
     (if k = Some ''major'' then version_text (next_number (digits_value a)) 0 0
      else if k = Some ''minor'' then version_text (digits_value a) (next_number (digits_value b)) 0
      else if digits_value c = 0 then version_text (digits_value a) (digits_value b) 100
      else version_text (digits_value a) (digits_value b) (next_number (digits_value c)))"
proof -
  have lim: "0 \<le> precision_limit" "100 \<le> precision_limit"
    by (simp_all add: precision_limit_def)
  have r0: "render (Fin (int A)) (Fin (int B)) (Fin 0) = version_text A B 0"
    if "A \<le> precision_limit" "B \<le> precision_limit" for A B
    using that render_upto[of A B 0] lim by simp
  have r00: "render (Fin (int A)) (Fin 0) (Fin 0) = version_text A 0 0"
    if "A \<le> precision_limit" for A
    using that render_upto[of A 0 0] lim by simp
  have r100: "render (Fin (int A)) (Fin (int B)) (Fin 100) = version_text A B 100"
    if "A \<le> precision_limit" "B \<le> precision_limit" for A B
    using that render_upto[of A B 100] lim by simp
  have inc: "(case k of None \<Rightarrow> ''patch'' | Some i \<Rightarrow> i) = ''major'' \<longleftrightarrow> k = Some ''major''"
    "(case k of None \<Rightarrow> ''patch'' | Some i \<Rightarrow> i) = ''minor'' \<longleftrightarrow> k = Some ''minor''"
    by (cases k; simp)+
  show ?thesis
    using a b c
    by (simp add: calculateNextVersion_def m inc Number_upto js_succ_upto next_number_upto
          render_upto r0 r00 r100 del: js_succ.simps)
qed

lemma version_text_inj:
  assumes "version_text A B C = version_text A' B' C'"
  shows "A = A' \<and> B = B' \<and> C = C'"
proof -
  have "match_version (version_text A B C) = match_version (version_text A' B' C')"
    using assms by simp
  then show ?thesis by (auto simp: match_version_text dest: decimal_inj)
qed

lemma components_upto_matches: "components_upto bound s \<Longrightarrow> match_version s \<noteq> None"
  by (auto simp: components_upto_def split: option.splits)

lemma components_upto_text:
  "components_upto bound (version_text A B C) \<longleftrightarrow> A \<le> bound \<and> B \<le> bound \<and> C \<le> bound"
  by (simp add: components_upto_def match_version_text digits_value_decimal)

section \<open>The script on versions that match the pattern\<close>

lemma split_on_no_sep: "sep \<notin> set a \<Longrightarrow> split_on sep a = [a]"
  by (induction a) auto

lemma split_on_append: "sep \<notin> set a \<Longrightarrow> split_on sep (a @ sep # r) = a # split_on sep r"
  by (induction a) auto

lemma digits_no_dot: "\<forall>x\<in>set a. is_digit x \<Longrightarrow> CHR ''.'' \<notin> set a"
  using not_digit_dot by auto

lemma split_on_dotted:
  assumes "\<forall>x\<in>set a. is_digit x" "\<forall>x\<in>set b. is_digit x" "\<forall>x\<in>set c. is_digit x"
  shows "split_on CHR ''.'' (a @ ''.'' @ b @ ''.'' @ c) = [a, b, c]"
  using assms by (simp add: split_on_append split_on_no_sep digits_no_dot)

lemma digit_not_space_sign:
  "is_digit c \<Longrightarrow> \<not> is_js_space c \<and> c \<noteq> CHR ''-'' \<and> c \<noteq> CHR ''+''"
  by (auto simp: is_digit_def is_js_space_def)

lemma parseInt10_digits:
  assumes "z \<noteq> []" "\<forall>x\<in>set z. is_digit x"
  shows "parseInt10 (Str z) = Number z"
proof -
  from assms obtain x xs where z: "z = x # xs" by (cases z) auto
  with assms(2) have "is_digit x" by simp
  then have x: "\<not> is_js_space x" "x \<noteq> CHR ''-''" "x \<noteq> CHR ''+''"
    using digit_not_space_sign by auto
  from assms(2) have t: "takeWhile is_digit z = z" by simp
  have d: "dropWhile is_js_space z = z" using z x by simp
  show ?thesis
    unfolding parseInt10_def val_to_string.simps d Let_def
    using z x t assms(1) by (simp add: Number_def)
qed

text \<open>What the script prints for a version string that matches the pattern.\<close>

lemma script_matching:
  assumes "match_version s = Some (a, b, c)"
  shows "upgradePackageJSONVersion ''patch'' s =
           Inr (a @ ''.'' @ b @ ''.'' @
                js_to_string (if js_lt (js_succ (Number c)) (Fin 100) then Fin 100
                              else js_succ (Number c)))"
    and "upgradePackageJSONVersion ''minor'' s =
           Inr (a @ ''.'' @ js_to_string (js_succ (Number b)) @ ''.'' @ js_to_string (Fin 0))"
    and "upgradePackageJSONVersion ''major'' s =
           Inr (js_to_string (js_succ (Number a)) @ ''.'' @ js_to_string (Fin 0) @ ''.'' @
                js_to_string (Fin 0))"
proof -
  note d = match_version_SomeD[OF assms]
  have sp: "split_on CHR ''.'' s = [a, b, c]"
    unfolding d(1) using d(3,5,7) by (rule split_on_dotted)
  have p: "parseInt10 (Str a) = Number a" "parseInt10 (Str b) = Number b"
    "parseInt10 (Str c) = Number c"
    using d by (simp_all add: parseInt10_digits)
  show "upgradePackageJSONVersion ''patch'' s =
           Inr (a @ ''.'' @ b @ ''.'' @
                js_to_string (if js_lt (js_succ (Number c)) (Fin 100) then Fin 100
                              else js_succ (Number c)))"
    by (simp add: upgradePackageJSONVersion_def sp array_get_def array_set_def p Let_def
        del: js_to_string.simps js_succ.simps)
  show "upgradePackageJSONVersion ''minor'' s =
           Inr (a @ ''.'' @ js_to_string (js_succ (Number b)) @ ''.'' @ js_to_string (Fin 0))"
    by (simp add: upgradePackageJSONVersion_def sp array_get_def array_set_def p Let_def
        del: js_to_string.simps js_succ.simps)
  show "upgradePackageJSONVersion ''major'' s =
           Inr (js_to_string (js_succ (Number a)) @ ''.'' @ js_to_string (Fin 0) @ ''.'' @
                js_to_string (Fin 0))"
    by (simp add: upgradePackageJSONVersion_def sp array_get_def array_set_def p Let_def
        del: js_to_string.simps js_succ.simps)
qed

lemma script_recognized:
  "k \<in> set [''major'', ''minor'', ''patch''] \<Longrightarrow>
     upgrade_version_script (Some k) s = upgradePackageJSONVersion k s"
  by (auto simp: upgrade_version_script_def versionBumpType_def)

lemma script_upto:
  assumes m: "match_version s = Some (a, b, c)"
      and a: "digits_value a \<le> precision_limit" and b: "digits_value b \<le> precision_limit"
      and c: "digits_value c \<le> precision_limit"
  shows "upgrade_version_script (Some ''patch'') s =
           Inr (a @ ''.'' @ b @ ''.'' @
                decimal (if digits_value c < 99 then 100 else next_number (digits_value c)))"
    and "upgrade_version_script (Some ''minor'') s =
           Inr (a @ ''.'' @ decimal (next_number (digits_value b)) @ ''.0'')"
    and "upgrade_version_script (Some ''major'') s =
           Inr (decimal (next_number (digits_value a)) @ ''.0.0'')"
proof -
  have lim: "0 \<le> precision_limit" "100 \<le> precision_limit"
    by (simp_all add: precision_limit_def)
  have z: "js_to_string (Fin 0) = ''0''" "js_to_string (Fin 100) = ''100''"
    using js_to_string_upto[of 0] js_to_string_upto[of 100] lim
    by (simp_all add: decimal_0 decimal_100)
  have lt: "next_number (digits_value c) < 100 \<longleftrightarrow> digits_value c < 99"
    by (auto simp: next_number_def precision_limit_def)
  show "upgrade_version_script (Some ''patch'') s =
           Inr (a @ ''.'' @ b @ ''.'' @
                decimal (if digits_value c < 99 then 100 else next_number (digits_value c)))"
    using c
    by (simp add: script_recognized script_matching[OF m] Number_upto js_succ_upto lt z
        js_to_string_upto next_number_upto decimal_100
        del: js_to_string.simps js_succ.simps)
  show "upgrade_version_script (Some ''minor'') s =
           Inr (a @ ''.'' @ decimal (next_number (digits_value b)) @ ''.0'')"
    using b
    by (simp add: script_recognized script_matching[OF m] Number_upto js_succ_upto z
        js_to_string_upto next_number_upto
        del: js_to_string.simps js_succ.simps)
  show "upgrade_version_script (Some ''major'') s =
           Inr (decimal (next_number (digits_value a)) @ ''.0.0'')"
    using a
    by (simp add: script_recognized script_matching[OF m] Number_upto js_succ_upto z
        js_to_string_upto next_number_upto
        del: js_to_string.simps js_succ.simps)
qed

section \<open>Versions with components that print without an exponent\<close>

lemma round_nat_print_limit: "round_nat print_limit = Some last_plain"
  by (simp add: print_limit_def last_plain_def round_nat_def round_quotient_def Let_def bitlen.simps)

lemma round_nat_print_limit_1: "round_nat (Suc print_limit) = Some (10 ^ 21)"
  by (simp add: print_limit_def round_nat_def round_quotient_def Let_def bitlen.simps)

lemma last_plain_less: "last_plain < 10 ^ 21" "Suc last_plain \<le> print_limit" "100 \<le> last_plain"
  "print_limit < 10 ^ 21"
  by (simp_all add: last_plain_def print_limit_def)

lemma round_below:
  assumes "n \<le> print_limit"
  shows "\<exists>u. round_nat n = Some u \<and> u \<le> last_plain"
  using round_nat_mono[OF assms round_nat_print_limit] .

lemma round_above:
  assumes "print_limit < y" and "round_nat y = Some x"
  shows "10 ^ 21 \<le> x"
proof -
  from assms(1) have "Suc print_limit \<le> y" by simp
  from round_nat_mono[OF this assms(2)] show ?thesis
    by (simp add: round_nat_print_limit_1)
qed

lemma to_double_below:
  assumes "n \<le> print_limit"
  shows "\<exists>u. to_double (int n) = Fin (int u) \<and> u \<le> last_plain"
  using round_below[OF assms] by (auto simp: to_double_def)

lemma Number_below:
  "digits_value s \<le> print_limit \<Longrightarrow> \<exists>u. Number s = Fin (int u) \<and> u \<le> last_plain"
  unfolding Number_def by (rule to_double_below)

lemma js_succ_below:
  assumes "u \<le> last_plain"
  shows "\<exists>u'. js_succ (Fin (int u)) = Fin (int u') \<and> u' \<le> last_plain"
proof -
  from assms last_plain_less(2) have "u + 1 \<le> print_limit" by simp
  from to_double_below[OF this] show ?thesis by (simp add: add.commute)
qed

lemma shortest_from_cases: "shortest_from x j = x \<or> rounds_to (shortest_from x j) x"
  by (induction j) (auto simp: Let_def)

lemma shortest_below:
  assumes "x \<le> last_plain"
  shows "shortest_decimal x \<le> print_limit"
proof (rule ccontr)
  assume "\<not> shortest_decimal x \<le> print_limit"
  then have gt: "print_limit < shortest_decimal x" by simp
  with assms last_plain_less(2) have "shortest_decimal x \<noteq> x" by simp
  with shortest_from_cases[of x "length (decimal x)"]
  have "round_nat (shortest_decimal x) = Some x"
    by (simp add: shortest_decimal_def rounds_to_def)
  with gt have "10 ^ 21 \<le> x" by (rule round_above)
  with assms last_plain_less(1) show False by simp
qed

lemma js_to_string_below:
  assumes "u \<le> last_plain"
  shows "\<exists>y. js_to_string (Fin (int u)) = decimal y \<and> y \<le> print_limit"
proof (cases "u = 0")
  case True
  then show ?thesis using decimal_0 by (intro exI[of _ 0]) simp
next
  case False
  from assms have y: "shortest_decimal u \<le> print_limit" by (rule shortest_below)
  with last_plain_less(4) have "shortest_decimal u < 10 ^ 21" by simp
  with False have "js_to_string (Fin (int u)) = decimal (shortest_decimal u)"
    by (simp add: print_decimal_def)
  with y show ?thesis by blast
qed

lemma render_below:
  assumes "x \<le> last_plain" "y \<le> last_plain" "z \<le> last_plain"
  shows "\<exists>A B C. render (Fin (int x)) (Fin (int y)) (Fin (int z)) = version_text A B C \<and>
           A \<le> print_limit \<and> B \<le> print_limit \<and> C \<le> print_limit"
  using js_to_string_below[OF assms(1)] js_to_string_below[OF assms(2)]
    js_to_string_below[OF assms(3)]
  unfolding render_def version_text_def by metis

lemma calc_below:
  assumes "components_upto print_limit s"
  shows "\<exists>A B C. calculateNextVersion s k = Inr (version_text A B C) \<and>
           A \<le> print_limit \<and> B \<le> print_limit \<and> C \<le> print_limit"
proof -
  from assms obtain a b c where m: "match_version s = Some (a, b, c)"
    and a: "digits_value a \<le> print_limit" and b: "digits_value b \<le> print_limit"
    and c: "digits_value c \<le> print_limit"
    by (auto simp: components_upto_def split: option.splits)
  from Number_below[OF a] obtain x where x: "Number a = Fin (int x)" "x \<le> last_plain" by blast
  from Number_below[OF b] obtain y where y: "Number b = Fin (int y)" "y \<le> last_plain" by blast
  from Number_below[OF c] obtain z where z: "Number c = Fin (int z)" "z \<le> last_plain" by blast
  from js_succ_below[OF x(2)] obtain x' where
    x': "js_succ (Fin (int x)) = Fin (int x')" "x' \<le> last_plain" by blast
  from js_succ_below[OF y(2)] obtain y' where
    y': "js_succ (Fin (int y)) = Fin (int y')" "y' \<le> last_plain" by blast
  from js_succ_below[OF z(2)] obtain z' where
    z': "js_succ (Fin (int z)) = Fin (int z')" "z' \<le> last_plain" by blast
  have k0: "(0::nat) \<le> last_plain" "Fin 0 = Fin (int 0)" "Fin 100 = Fin (int 100)"
    by simp_all
  note k100 = last_plain_less(3)
  let ?inc = "case k of None \<Rightarrow> ''patch'' | Some i \<Rightarrow> i"
  consider "?inc = ''major''" | "?inc \<noteq> ''major''" "?inc = ''minor''"
    | "?inc \<noteq> ''major''" "?inc \<noteq> ''minor''" "Number c = Fin 0"
    | "?inc \<noteq> ''major''" "?inc \<noteq> ''minor''" "Number c \<noteq> Fin 0" by blast
  then show ?thesis
  proof cases
    case 1
    then have "calculateNextVersion s k = Inr (render (Fin (int x')) (Fin (int 0)) (Fin (int 0)))"
      by (simp add: calculateNextVersion_def m x x' del: js_succ.simps)
    with render_below[OF x'(2) k0(1) k0(1)] show ?thesis by metis
  next
    case 2
    then have "calculateNextVersion s k = Inr (render (Fin (int x)) (Fin (int y')) (Fin (int 0)))"
      by (simp add: calculateNextVersion_def m x y y' del: js_succ.simps)
    with render_below[OF x(2) y'(2) k0(1)] show ?thesis by metis
  next
    case 3
    then have "calculateNextVersion s k = Inr (render (Fin (int x)) (Fin (int y)) (Fin (int 100)))"
      by (simp add: calculateNextVersion_def m x y del: js_succ.simps)
    with render_below[OF x(2) y(2) k100] show ?thesis by metis
  next
    case 4
    then have "calculateNextVersion s k = Inr (render (Fin (int x)) (Fin (int y)) (Fin (int z')))"
      by (simp add: calculateNextVersion_def m x y z z' del: js_succ.simps)
    with render_below[OF x(2) y(2) z'(2)] show ?thesis by metis
  qed
qed

lemma calc_below_closed:
  assumes "components_upto print_limit s"
  shows "\<exists>out. calculateNextVersion s k = Inr out \<and> components_upto print_limit out"
  using calc_below[OF assms, of k] by (auto simp: components_upto_text)

lemma bump_repeatedly_below:
  "components_upto print_limit s \<Longrightarrow>
     \<exists>out. bump_repeatedly ks s = Inr out \<and> components_upto print_limit out"
proof (induction ks arbitrary: s)
  case Nil
  then show ?case by simp
next
  case (Cons k ks)
  from calc_below_closed[OF Cons.prems, of k] obtain v where
    v: "calculateNextVersion s k = Inr v" "components_upto print_limit v" by blast
  from Cons.IH[OF v(2)] v(1) show ?case by simp
qed

section \<open>Evaluation on concrete inputs\<close>

lemmas eval_simps = calculateNextVersion_def match_version_def digits1_def expect_dot_def
  is_digit_def Number_def digits_value_def digit_val_def to_double_def round_nat_def round_quotient_def Let_def
  bitlen.simps render_def shortest_decimal_def rounds_to_def print_decimal_def strip_zeros_def
  decimal.simps digit_char_simps digit_char_Suc0

lemmas script_eval = eval_simps upgrade_version_script_def versionBumpType_def
  upgradePackageJSONVersion_def array_get_def array_set_def parseInt10_def is_js_space_def

section \<open>Splitting and substrings\<close>

lemma split_on_first:
  "\<exists>ps. split_on sep s = takeWhile (\<lambda>c. c \<noteq> sep) s # ps"
  by (induction s) auto

lemma currentDate_takeWhile: "currentDate now_iso = takeWhile (\<lambda>c. c \<noteq> CHR ''T'') now_iso"
  using split_on_first[of "CHR ''T''" now_iso] by (auto simp: currentDate_def)

lemma substring_0: "substring s 0 n = take n s"
  by (simp add: substring_def Let_def min_def)

section \<open>Malformed version strings\<close>

text \<open>
  Claim C4, for \<open>VersionManager.calculateNextVersion\<close>: every string that the pattern
  \<open>^\d+\.\d+\.\d+$\<close> does not match is rejected with the error
  \<open>Invalid version format: \<close> followed by the string itself, whatever the selector;
  nothing is parsed or computed.
\<close>

theorem invalid_version_format_rejected:
  assumes "match_version s = None"
  shows "calculateNextVersion s k = Inl (Error (''Invalid version format: '' @ s))"
  using assms by (simp add: calculateNextVersion_def)

theorem invalid_version_format_rejected_witness:
  "match_version ''1.a.3'' = None \<and>
   calculateNextVersion ''1.a.3'' (Some ''patch'') = Inl (Error ''Invalid version format: 1.a.3'')"
proof -
  have h: "match_version ''1.a.3'' = None" by (rule invalid_examples)
  from invalid_version_format_rejected[OF h, of "Some ''patch''"] h show ?thesis by simp
qed

text \<open>
  The bump script has no such check: \<open>v1.2.3\<close> does not match the pattern, and the
  script prints a new version for it.
\<close>

theorem script_accepts_malformed_version:
  "match_version ''v1.2.3'' = None \<and>
   upgrade_version_script (Some ''patch'') ''v1.2.3'' = Inr ''v1.2.100''"
  by (simp add: invalid_examples script_eval)

section \<open>The changelog entry\<close>

lemma split_on_lines:
  assumes "sep \<notin> set l1" "sep \<notin> set l3" "sep \<notin> set l4" "sep \<notin> set l5"
  shows "split_on sep (l1 @ [sep, sep] @ l3 @ [sep] @ l4 @ [sep] @ l5 @ [sep, sep]) =
           [l1, [], l3, l4, l5, [], []]"
proof -
  have e: "split_on sep [sep] = [[], []]" by simp
  have "split_on sep (l5 @ sep # [sep]) = l5 # split_on sep [sep]"
    using assms(4) by (rule split_on_append)
  then have 5: "split_on sep (l5 @ [sep, sep]) = [l5, [], []]" by (simp add: e)
  have "split_on sep (l4 @ sep # (l5 @ [sep, sep])) = l4 # split_on sep (l5 @ [sep, sep])"
    using assms(3) by (rule split_on_append)
  with 5 have 4: "split_on sep (l4 @ [sep] @ l5 @ [sep, sep]) = [l4, l5, [], []]" by simp
  have "split_on sep (l3 @ sep # (l4 @ [sep] @ l5 @ [sep, sep])) =
      l3 # split_on sep (l4 @ [sep] @ l5 @ [sep, sep])"
    using assms(2) by (rule split_on_append)
  with 4 have 3: "split_on sep (l3 @ [sep] @ l4 @ [sep] @ l5 @ [sep, sep]) = [l3, l4, l5, [], []]"
    by simp
  have "split_on sep (l1 @ sep # (sep # (l3 @ [sep] @ l4 @ [sep] @ l5 @ [sep, sep]))) =
      l1 # split_on sep (sep # (l3 @ [sep] @ l4 @ [sep] @ l5 @ [sep, sep]))"
    using assms(1) by (rule split_on_append)
  with 3 show ?thesis by simp
qed

text \<open>
  Claim C5, as the code has it: the entry is the heading \<open>## [version] - date\<close>, where
  the date is the part of the clock's ISO string before its \<open>T\<close> (the calendar date
  alone), an empty line, the author line, the commit line with the first seven
  characters of the SHA as label and the full SHA in a link under the fixed path
  \<open>owner/repo\<close>, the message line with the message as it is, and an empty line.  When
  no field holds a line break these are the lines of the entry, in this order, followed
  by the two empty strings that the two final line breaks leave.
\<close>

theorem changelog_entry_layout:
  "generateChangelogEntry now_iso version cd =
     ''## ['' @ version @ ''] - '' @ takeWhile (\<lambda>c. c \<noteq> CHR ''T'') now_iso @ [nl, nl] @
     ''**Author:** '' @ author cd @ [nl] @
     ''**Commit:** ['' @ take 7 (sha cd) @ ''](https://github.com/owner/repo/commit/'' @ sha cd @ '')'' @ [nl] @
     ''**Message:** '' @ message cd @ [nl, nl]
   \<and> (nl \<notin> set now_iso \<union> set version \<union> set (author cd) \<union> set (sha cd) \<union> set (message cd) \<longrightarrow>
        split_on nl (generateChangelogEntry now_iso version cd) =
          [''## ['' @ version @ ''] - '' @ takeWhile (\<lambda>c. c \<noteq> CHR ''T'') now_iso,
           [],
           ''**Author:** '' @ author cd,
           ''**Commit:** ['' @ take 7 (sha cd) @ ''](https://github.com/owner/repo/commit/'' @ sha cd @ '')'',
           ''**Message:** '' @ message cd,
           [],
           []])"
proof -
  let ?l1 = "''## ['' @ version @ ''] - '' @ takeWhile (\<lambda>c. c \<noteq> CHR ''T'') now_iso"
  let ?l3 = "''**Author:** '' @ author cd"
  let ?l4 = "''**Commit:** ['' @ take 7 (sha cd) @ ''](https://github.com/owner/repo/commit/'' @ sha cd @ '')''"
  let ?l5 = "''**Message:** '' @ message cd"
  have eq: "generateChangelogEntry now_iso version cd =
      ?l1 @ [nl, nl] @ ?l3 @ [nl] @ ?l4 @ [nl] @ ?l5 @ [nl, nl]"
    by (simp add: generateChangelogEntry_def currentDate_takeWhile substring_0)
  have lines: "split_on nl (?l1 @ [nl, nl] @ ?l3 @ [nl] @ ?l4 @ [nl] @ ?l5 @ [nl, nl]) =
      [?l1, [], ?l3, ?l4, ?l5, [], []]"
    if "nl \<notin> set now_iso \<union> set version \<union> set (author cd) \<union> set (sha cd) \<union> set (message cd)"
  proof (rule split_on_lines)
    show "nl \<notin> set ?l1" using that by (auto dest: set_takeWhileD)
    show "nl \<notin> set ?l3" using that by auto
    show "nl \<notin> set ?l4" using that by (auto dest: in_set_takeD)
    show "nl \<notin> set ?l5" using that by auto
  qed
  show ?thesis
  proof (intro conjI impI)
    show "generateChangelogEntry now_iso version cd =
       ''## ['' @ version @ ''] - '' @ takeWhile (\<lambda>c. c \<noteq> CHR ''T'') now_iso @ [nl, nl] @
       ''**Author:** '' @ author cd @ [nl] @
       ''**Commit:** ['' @ take 7 (sha cd) @ ''](https://github.com/owner/repo/commit/'' @ sha cd @ '')'' @ [nl] @
       ''**Message:** '' @ message cd @ [nl, nl]"
      by (simp add: generateChangelogEntry_def currentDate_takeWhile substring_0)
  next
    assume "nl \<notin> set now_iso \<union> set version \<union> set (author cd) \<union> set (sha cd) \<union> set (message cd)"
    then show "split_on nl (generateChangelogEntry now_iso version cd) =
        [?l1, [], ?l3, ?l4, ?l5, [], []]"
      unfolding eq by (rule lines)
  qed
qed

theorem changelog_entry_layout_witness:
  "nl \<notin> set ''2024-07-04T14:30:25.000Z'' \<union> set ''1.2.4'' \<union> set ''Test Author'' \<union>
      set ''abc123def456789'' \<union> set ''feat: add new feature'' \<and>
   split_on nl (generateChangelogEntry ''2024-07-04T14:30:25.000Z'' ''1.2.4''
      \<lparr>sha = ''abc123def456789'', author = ''Test Author'', message = ''feat: add new feature''\<rparr>) =
     [''## [1.2.4] - 2024-07-04'',
      [],
      ''**Author:** Test Author'',
      ''**Commit:** [abc123d](https://github.com/owner/repo/commit/abc123def456789)'',
      ''**Message:** feat: add new feature'',
      [],
      []]"
  using changelog_entry_layout[of "''2024-07-04T14:30:25.000Z''" "''1.2.4''"
      "\<lparr>sha = ''abc123def456789'', author = ''Test Author'', message = ''feat: add new feature''\<rparr>"]
  by simp

text \<open>
  At 14:30:25 UTC on 4 July 2024 the heading carries the date only; the entry is not the
  block with \<open>2024-07-04 14:30:25 UTC\<close> in its heading.
\<close>

theorem changelog_entry_has_no_time:
  "generateChangelogEntry ''2024-07-04T14:30:25.000Z'' ''1.2.4''
      \<lparr>sha = ''abc123def456789'', author = ''Test Author'', message = ''feat: add new feature''\<rparr>
    = ''## [1.2.4] - 2024-07-04'' @ [nl, nl] @
      ''**Author:** Test Author'' @ [nl] @
      ''**Commit:** [abc123d](https://github.com/owner/repo/commit/abc123def456789)'' @ [nl] @
      ''**Message:** feat: add new feature'' @ [nl, nl]
   \<and> generateChangelogEntry ''2024-07-04T14:30:25.000Z'' ''1.2.4''
      \<lparr>sha = ''abc123def456789'', author = ''Test Author'', message = ''feat: add new feature''\<rparr>
    \<noteq> ''## [1.2.4] - 2024-07-04 14:30:25 UTC'' @ [nl, nl] @
      ''**Author:** Test Author'' @ [nl] @
      ''**Commit:** [abc123d](https://github.com/owner/repo/commit/abc123def456789)'' @ [nl] @
      ''**Message:** feat: add new feature'' @ [nl, nl]"
  by (simp add: generateChangelogEntry_def currentDate_def substring_def)

section \<open>Dependence on the clock\<close>

text \<open>
  The clock.  \<open>generateChangelogEntry\<close> takes no timestamp; it reads
  the clock.  Two calls with the same version and commit data return the same entry
  exactly when the clock shows the same calendar date at both.
\<close>

theorem changelog_entry_depends_on_clock_date:
  "generateChangelogEntry iso1 version cd = generateChangelogEntry iso2 version cd
     \<longleftrightarrow> currentDate iso1 = currentDate iso2"
  by (simp add: generateChangelogEntry_def)

text \<open>The same arguments, one millisecond apart across midnight, give two entries.\<close>

theorem changelog_entry_changes_with_clock:
  "generateChangelogEntry ''2024-07-04T23:59:59.999Z'' ''1.2.4''
      \<lparr>sha = ''abc123def456789'', author = ''Test Author'', message = ''feat: add new feature''\<rparr>
   \<noteq> generateChangelogEntry ''2024-07-05T00:00:00.000Z'' ''1.2.4''
      \<lparr>sha = ''abc123def456789'', author = ''Test Author'', message = ''feat: add new feature''\<rparr>"
  by (simp add: generateChangelogEntry_def currentDate_def)

section \<open>Unrecognized selectors\<close>

text \<open>
  Claim C6, as the code has it: the bump script stops with exit status 1 for every
  selector that is given, not empty and not one of \<open>major\<close>, \<open>minor\<close>, \<open>patch\<close>;
  an empty or absent selector counts as \<open>patch\<close>.  \<open>calculateNextVersion\<close> raises
  no error for a selector: every selector other than \<open>major\<close> and \<open>minor\<close>, and an
  omitted one, is handled as \<open>patch\<close>.
\<close>

theorem unrecognized_selector:
  "(k \<notin> set [''major'', ''minor'', ''patch''] \<and> k \<noteq> [] \<longrightarrow>
      upgrade_version_script (Some k) v =
        Inl (ProcessExit 1 ''Invalid version bump type. Use major, minor, or patch.''))
   \<and> (k \<notin> set [''major'', ''minor''] \<longrightarrow>
      calculateNextVersion v (Some k) = calculateNextVersion v (Some ''patch''))
   \<and> calculateNextVersion v None = calculateNextVersion v (Some ''patch'')
   \<and> upgrade_version_script (Some []) v = upgrade_version_script (Some ''patch'') v
   \<and> upgrade_version_script None v = upgrade_version_script (Some ''patch'') v"
  by (auto simp: upgrade_version_script_def versionBumpType_def calculateNextVersion_def Let_def
      split: option.splits)

theorem unrecognized_selector_witness:
  "''bogus'' \<notin> set [''major'', ''minor'', ''patch''] \<and> ''bogus'' \<noteq> [] \<and>
   upgrade_version_script (Some ''bogus'') ''1.2.3'' =
     Inl (ProcessExit 1 ''Invalid version bump type. Use major, minor, or patch.'') \<and>
   calculateNextVersion ''1.2.3'' (Some ''bogus'') = calculateNextVersion ''1.2.3'' (Some ''patch'')"
  using unrecognized_selector[of "''bogus''" "''1.2.3''"] by simp

text \<open>The selector \<open>bogus\<close> is not recognized, and the version is bumped all the same.\<close>

theorem unrecognized_selector_bumps_patch:
  "''bogus'' \<notin> set [''major'', ''minor'', ''patch''] \<and>
   calculateNextVersion ''1.2.3'' (Some ''bogus'') = Inr ''1.2.4''"
  by (simp add: eval_simps)

section \<open>The patch rule and the two implementations\<close>

lemma safe_upto: "n \<le> MAX_SAFE_INTEGER \<Longrightarrow> n \<le> precision_limit"
  by (simp add: MAX_SAFE_INTEGER_def)

text \<open>
  Claim C1, as the code has it.  For a version with a patch other than 0, and with
  components that the Numbers hold exactly, \<open>calculateNextVersion\<close> adds exactly 1 to
  the patch and leaves major and minor as they are.  The bump script does so from patch
  99 on; a patch from 1 to 98 becomes 100.
\<close>

theorem patch_increment_nonzero:
  assumes "patch \<noteq> 0"
      and "major \<le> precision_limit" "minor \<le> precision_limit" "patch \<le> MAX_SAFE_INTEGER"
  shows "calculateNextVersion (version_text major minor patch) (Some ''patch'') =
           Inr (version_text major minor (patch + 1))
       \<and> (99 \<le> patch \<longrightarrow>
            upgrade_version_script (Some ''patch'') (version_text major minor patch) =
              Inr (version_text major minor (patch + 1)))
       \<and> (patch < 99 \<longrightarrow>
            upgrade_version_script (Some ''patch'') (version_text major minor patch) =
              Inr (version_text major minor 100))"
proof -
  note m = match_version_text[of major minor patch]
  have p: "patch \<le> precision_limit" using assms(4) by (rule safe_upto)
  have n: "next_number patch = patch + 1" using assms(4) by (rule next_number_safe)
  have "calculateNextVersion (version_text major minor patch) (Some ''patch'') =
           Inr (version_text major minor (patch + 1))"
    using calc_upto[OF m, of "Some ''patch''"] assms p n by (simp add: digits_value_decimal)
  moreover have "upgrade_version_script (Some ''patch'') (version_text major minor patch) =
      Inr (version_text major minor (if patch < 99 then 100 else patch + 1))"
    using script_upto(1)[OF m] assms p n
    by (simp add: digits_value_decimal version_text_def)
  ultimately show ?thesis by simp
qed

lemmas text_eval = version_text_def decimal.simps digit_char_simps digit_char_Suc0

lemma small_safe: "n \<le> 1000 \<Longrightarrow> n \<le> MAX_SAFE_INTEGER" "n \<le> 1000 \<Longrightarrow> n \<le> precision_limit"
  by (simp_all add: MAX_SAFE_INTEGER_def precision_limit_def)

theorem patch_increment_nonzero_witness:
  "calculateNextVersion ''1.2.150'' (Some ''patch'') = Inr ''1.2.151'' \<and>
   upgrade_version_script (Some ''patch'') ''1.2.150'' = Inr ''1.2.151'' \<and>
   calculateNextVersion ''1.2.5'' (Some ''patch'') = Inr ''1.2.6'' \<and>
   upgrade_version_script (Some ''patch'') ''1.2.5'' = Inr ''1.2.100''"
  using patch_increment_nonzero[of 150 1 2]
    patch_increment_nonzero[of 5 1 2]
  by (simp add: small_safe text_eval)

text \<open>
  The script on patch 5: the new patch is 100, not 6.
\<close>

theorem script_jumps_to_100:
  "upgrade_version_script (Some ''patch'') ''1.2.5'' = Inr ''1.2.100'' \<and>
   upgrade_version_script (Some ''patch'') ''1.2.5'' \<noteq> Inr ''1.2.6''"
  by (simp add: script_eval)

text \<open>
  Claim C2, for major and minor up to \<open>2 ^ 53\<close>: a patch of 0 becomes 100, in
  \<open>calculateNextVersion\<close> and in the bump script, and major and minor stay.
\<close>

theorem patch_increment_zero:
  assumes "major \<le> precision_limit" "minor \<le> precision_limit"
  shows "calculateNextVersion (version_text major minor 0) (Some ''patch'') =
           Inr (version_text major minor 100)
       \<and> upgrade_version_script (Some ''patch'') (version_text major minor 0) =
           Inr (version_text major minor 100)"
proof -
  note m = match_version_text[of major minor 0]
  have z: "(0::nat) \<le> precision_limit" by simp
  have "calculateNextVersion (version_text major minor 0) (Some ''patch'') =
           Inr (version_text major minor 100)"
    using calc_upto[OF m, of "Some ''patch''"] assms by (simp add: digits_value_decimal)
  moreover have "upgrade_version_script (Some ''patch'') (version_text major minor 0) =
           Inr (version_text major minor 100)"
    using script_upto(1)[OF m] assms
    by (simp add: digits_value_decimal version_text_def)
  ultimately show ?thesis by simp
qed

theorem patch_increment_zero_witness:
  "(1::nat) \<le> precision_limit \<and> (2::nat) \<le> precision_limit \<and>
   calculateNextVersion ''1.2.0'' (Some ''patch'') = Inr ''1.2.100'' \<and>
   upgrade_version_script (Some ''patch'') ''1.2.0'' = Inr ''1.2.100''"
  using patch_increment_zero[of 1 2]
  by (simp add: small_safe text_eval)


text \<open>
  Claim C3, as the code has it.  On a version written without leading zeros, with
  components up to \<open>2 ^ 53\<close>, the script and \<open>calculateNextVersion\<close> return the
  same string for \<open>major\<close> and \<open>minor\<close>, and for \<open>patch\<close> exactly when the patch is
  0 or at least 99.
\<close>

theorem script_agrees_with_VersionManager:
  assumes "major \<le> precision_limit" "minor \<le> precision_limit" "patch \<le> precision_limit"
      and "k \<in> set [''major'', ''minor'', ''patch'']"
  shows "upgrade_version_script (Some k) (version_text major minor patch) =
           calculateNextVersion (version_text major minor patch) (Some k)
         \<longleftrightarrow> (k = ''patch'' \<longrightarrow> patch = 0 \<or> 99 \<le> patch)"
proof -
  note m = match_version_text[of major minor patch]
  note c = calc_upto[OF m, of "Some k"]
  note s = script_upto[OF m]
  have n: "next_number patch = 100 \<longleftrightarrow> patch = 99"
    by (auto simp: next_number_def precision_limit_def)
  from assms(4) consider "k = ''major''" | "k = ''minor''" | "k = ''patch''" by auto
  then show ?thesis
  proof cases
    case 1
    then show ?thesis using c s(3) assms
      by (simp add: digits_value_decimal version_text_def decimal_0)
  next
    case 2
    then show ?thesis using c s(2) assms
      by (simp add: digits_value_decimal version_text_def decimal_0)
  next
    case 3
    then show ?thesis using c s(1) assms
      by (auto simp: digits_value_decimal version_text_def n dest: decimal_inj)
  qed
qed

theorem script_agrees_with_VersionManager_witness:
  "upgrade_version_script (Some ''minor'') ''1.2.105'' = calculateNextVersion ''1.2.105'' (Some ''minor'') \<and>
   upgrade_version_script (Some ''patch'') ''1.2.150'' = calculateNextVersion ''1.2.150'' (Some ''patch'') \<and>
   upgrade_version_script (Some ''patch'') ''1.2.0'' = calculateNextVersion ''1.2.0'' (Some ''patch'')"
  using script_agrees_with_VersionManager[of 1 2 105 "''minor''"]
    script_agrees_with_VersionManager[of 1 2 150 "''patch''"]
    script_agrees_with_VersionManager[of 1 2 0 "''patch''"]
  by (simp add: small_safe text_eval)

text \<open>
  On patch 1 the two differ: the script prints 100, \<open>calculateNextVersion\<close> returns 2.
\<close>

theorem script_differs_from_VersionManager:
  "upgrade_version_script (Some ''patch'') ''6.6.1'' = Inr ''6.6.100'' \<and>
   calculateNextVersion ''6.6.1'' (Some ''patch'') = Inr ''6.6.2''"
  by (simp add: script_eval)

text \<open>The script copies the components it does not bump; \<open>calculateNextVersion\<close> prints them anew.\<close>

lemma script_keeps_leading_zeros:
  "upgrade_version_script (Some ''minor'') ''01.02.5'' = Inr ''01.3.0''"
  "calculateNextVersion ''01.02.5'' (Some ''minor'') = Inr ''1.3.0''"
  by (simp_all add: script_eval)

section \<open>Leading zeros\<close>

lemma canonical_decimal: "canonical_numeral (decimal n)"
proof (cases "n = 0")
  case True
  then show ?thesis by (simp add: canonical_numeral_def decimal_0 is_digit_def)
next
  case False
  then have "hd (decimal n) \<noteq> CHR ''0''" by (simp add: hd_decimal)
  then show ?thesis
    by (simp add: canonical_numeral_def decimal_ne list_all_iff decimal_digits)
qed

text \<open>
  Claim C10, for components up to \<open>Number.MAX_SAFE_INTEGER\<close>.  A string that matches
  the pattern, with or without leading zeros, is read by the values of its components:
  \<open>calculateNextVersion\<close> succeeds and returns the next version of these values,
  each component printed in canonical form, without leading zeros.
\<close>

theorem leading_zeros_normalized:
  assumes "match_version s = Some (a, b, c)"
      and "digits_value a \<le> MAX_SAFE_INTEGER" "digits_value b \<le> MAX_SAFE_INTEGER"
      and "digits_value c \<le> MAX_SAFE_INTEGER"
  shows "calculateNextVersion s k = Inr
           (if k = Some ''major'' then version_text (digits_value a + 1) 0 0
            else if k = Some ''minor'' then version_text (digits_value a) (digits_value b + 1) 0
            else if digits_value c = 0 then version_text (digits_value a) (digits_value b) 100
            else version_text (digits_value a) (digits_value b) (digits_value c + 1))
       \<and> (\<exists>A B C. calculateNextVersion s k = Inr (A @ ''.'' @ B @ ''.'' @ C) \<and>
             canonical_numeral A \<and> canonical_numeral B \<and> canonical_numeral C)"
proof -
  note u = safe_upto[OF assms(2)] safe_upto[OF assms(3)] safe_upto[OF assms(4)]
  note n = next_number_safe[OF assms(2)] next_number_safe[OF assms(3)] next_number_safe[OF assms(4)]
  have first: "calculateNextVersion s k = Inr
           (if k = Some ''major'' then version_text (digits_value a + 1) 0 0
            else if k = Some ''minor'' then version_text (digits_value a) (digits_value b + 1) 0
            else if digits_value c = 0 then version_text (digits_value a) (digits_value b) 100
            else version_text (digits_value a) (digits_value b) (digits_value c + 1))"
    using calc_upto[OF assms(1) u, of k] by (simp only: n)
  have "\<exists>A B C. calculateNextVersion s k = Inr (version_text A B C)"
    unfolding first by auto
  then obtain A B C where "calculateNextVersion s k = Inr (version_text A B C)" by blast
  then have "calculateNextVersion s k = Inr (decimal A @ ''.'' @ decimal B @ ''.'' @ decimal C)"
    by (simp add: version_text_def)
  with canonical_decimal have "\<exists>A B C. calculateNextVersion s k = Inr (A @ ''.'' @ B @ ''.'' @ C) \<and>
             canonical_numeral A \<and> canonical_numeral B \<and> canonical_numeral C"
    by blast
  with first show ?thesis by blast
qed

theorem leading_zeros_normalized_witness:
  "match_version ''01.02.000'' = Some (''01'', ''02'', ''000'') \<and>
   digits_value ''01'' \<le> MAX_SAFE_INTEGER \<and> digits_value ''02'' \<le> MAX_SAFE_INTEGER \<and>
   digits_value ''000'' \<le> MAX_SAFE_INTEGER \<and>
   calculateNextVersion ''01.02.000'' (Some ''patch'') = Inr ''1.2.100'' \<and>
   calculateNextVersion ''01.02.000'' (Some ''minor'') = Inr ''1.3.0'' \<and>
   calculateNextVersion ''01.02.000'' (Some ''major'') = Inr ''2.0.0''"
proof -
  have h: "match_version ''01.02.000'' = Some (''01'', ''02'', ''000'')"
    by (simp add: match_version_def digits1_def expect_dot_def is_digit_def)
  have d: "digits_value ''01'' = 1" "digits_value ''02'' = 2" "digits_value ''000'' = 0"
    by (simp_all add: digits_value_def digit_val_def)
  have b: "digits_value ''01'' \<le> MAX_SAFE_INTEGER" "digits_value ''02'' \<le> MAX_SAFE_INTEGER"
    "digits_value ''000'' \<le> MAX_SAFE_INTEGER"
    by (simp_all add: d MAX_SAFE_INTEGER_def precision_limit_def)
  note t = leading_zeros_normalized[OF h b]
  have two: "digit_char (Suc (Suc 0)) = CHR ''2''"
    using digit_char_simps(3) by (simp add: numeral_2_eq_2)
  from t[of "Some ''patch''"] t[of "Some ''minor''"] t[of "Some ''major''"] h b
  show ?thesis by (simp add: d text_eval two)
qed

text \<open>
  With a leading zero and the major \<open>2 ^ 53 + 1\<close>, the version returned carries the
  major \<open>2 ^ 53\<close>: it is not the input's value written without the zero.
\<close>

theorem leading_zeros_beyond_precision:
  "match_version ''09007199254740993.0.0'' = Some (''09007199254740993'', ''0'', ''0'') \<and>
   digits_value ''09007199254740993'' = 9007199254740993 \<and>
   calculateNextVersion ''09007199254740993.0.0'' (Some ''patch'') = Inr ''9007199254740992.0.100''"
proof -
  have m: "match_version ''09007199254740993.0.0'' = Some (''09007199254740993'', ''0'', ''0'')"
    by (simp add: match_version_def digits1_def expect_dot_def is_digit_def)
  have d: "digits_value ''09007199254740993'' = 9007199254740993"
    by (simp add: digits_value_def digit_val_def)
  then have "digits_value ''09007199254740993'' = Suc precision_limit"
    by (simp add: precision_limit_def)
  then have N: "Number ''09007199254740993'' = Fin (int precision_limit)"
    by (simp add: Number_def to_double_def round_nat_limit_1 del: of_nat_Suc)
  have z: "Number ''0'' = Fin (int 0)"
    by (simp add: Number_def digits_value_def digit_val_def to_double_def round_nat_def)
  have r: "render (Fin (int precision_limit)) (Fin (int 0)) (Fin (int 100)) =
      version_text precision_limit 0 100"
    by (rule render_upto) (simp_all add: precision_limit_def)
  have t: "version_text precision_limit 0 100 = ''9007199254740992.0.100''"
    by (simp add: version_text_def decimal_0 decimal_100 precision_limit_numeral decimal_limit)
  have "calculateNextVersion ''09007199254740993.0.0'' (Some ''patch'') =
      Inr (render (Fin (int precision_limit)) (Fin (int 0)) (Fin (int 100)))"
    by (simp add: calculateNextVersion_def m N z del: js_to_string.simps)
  with m d show ?thesis by (simp only: r t)
qed

section \<open>Repeated increments\<close>

text \<open>
  Claim C9, for components up to \<open>print_limit\<close>, the numbers that print without an
  exponent.  The next version of such a string matches the pattern again and has
  components up to \<open>print_limit\<close> again, so that any number of further increments
  succeeds as well.
\<close>

theorem version_format_closed:
  assumes "components_upto print_limit v"
  shows "(\<exists>out. calculateNextVersion v k = Inr out \<and> match_version out \<noteq> None \<and>
            components_upto print_limit out)
       \<and> (\<exists>out. bump_repeatedly ks v = Inr out \<and> match_version out \<noteq> None \<and>
            components_upto print_limit out)"
  using calc_below_closed[OF assms, of k] bump_repeatedly_below[OF assms, of ks]
    components_upto_matches by blast

theorem version_format_closed_witness:
  "components_upto print_limit ''1.2.0'' \<and>
   (\<exists>out. calculateNextVersion ''1.2.0'' (Some ''patch'') = Inr out \<and> match_version out \<noteq> None \<and>
      components_upto print_limit out) \<and>
   (\<exists>out. bump_repeatedly [Some ''patch'', None, Some ''minor'', Some ''major''] ''1.2.0'' = Inr out \<and>
      match_version out \<noteq> None \<and> components_upto print_limit out)"
proof -
  have h: "components_upto print_limit ''1.2.0''"
    by (simp add: components_upto_def match_version_def digits1_def expect_dot_def is_digit_def
        digits_value_def digit_val_def print_limit_def)
  from version_format_closed[OF h] h show ?thesis by blast
qed

lemma calc_text:
  assumes "A \<le> precision_limit" "B \<le> precision_limit" "C \<le> precision_limit"
  shows "calculateNextVersion (version_text A B C) k = Inr
     (if k = Some ''major'' then version_text (next_number A) 0 0
      else if k = Some ''minor'' then version_text A (next_number B) 0
      else if C = 0 then version_text A B 100
      else version_text A B (next_number C))"
  using calc_upto[OF match_version_text[of A B C], of k] assms
  by (simp add: digits_value_decimal)

lemma calc_twice_differs:
  assumes "components_upto (MAX_SAFE_INTEGER - 1) v"
  shows "\<exists>v1 v2. calculateNextVersion v k = Inr v1 \<and> calculateNextVersion v1 k = Inr v2 \<and> v2 \<noteq> v1"
proof -
  from assms obtain a b c where m: "match_version v = Some (a, b, c)"
    and a: "digits_value a \<le> MAX_SAFE_INTEGER - 1"
    and b: "digits_value b \<le> MAX_SAFE_INTEGER - 1"
    and c: "digits_value c \<le> MAX_SAFE_INTEGER - 1"
    by (auto simp: components_upto_def split: option.splits)
  let ?A = "digits_value a" and ?B = "digits_value b" and ?C = "digits_value c"
  have lim: "x \<le> MAX_SAFE_INTEGER - 1 \<Longrightarrow> x \<le> precision_limit \<and> x + 1 \<le> precision_limit \<and>
      next_number x = x + 1 \<and> next_number (x + 1) = x + 2" for x
    by (simp add: MAX_SAFE_INTEGER_def next_number_def precision_limit_def)
  have k100: "100 \<le> precision_limit" "0 \<le> precision_limit" "next_number 100 = 101"
    by (simp_all add: next_number_def precision_limit_def)
  note la = lim[OF a] and lb = lim[OF b] and lc = lim[OF c]
  have v1: "calculateNextVersion v k = Inr
     (if k = Some ''major'' then version_text (?A + 1) 0 0
      else if k = Some ''minor'' then version_text ?A (?B + 1) 0
      else if ?C = 0 then version_text ?A ?B 100
      else version_text ?A ?B (?C + 1))"
    using calc_upto[OF m, of k] la lb lc by simp
  show ?thesis
  proof (cases "k = Some ''major''")
    case True
    have "calculateNextVersion (version_text (?A + 1) 0 0) k = Inr (version_text (?A + 2) 0 0)"
      using calc_text[of "?A + 1" 0 0 k] la k100 True by simp
    moreover have "version_text (?A + 2) 0 0 \<noteq> version_text (?A + 1) 0 0"
      using version_text_inj[of "?A + 2" 0 0 "?A + 1" 0 0] by auto
    ultimately show ?thesis using v1 True by simp
  next
    case major: False
    show ?thesis
    proof (cases "k = Some ''minor''")
      case True
      have "calculateNextVersion (version_text ?A (?B + 1) 0) k = Inr (version_text ?A (?B + 2) 0)"
        using calc_text[of ?A "?B + 1" 0 k] la lb k100 True by simp
      moreover have "version_text ?A (?B + 2) 0 \<noteq> version_text ?A (?B + 1) 0"
        using version_text_inj[of ?A "?B + 2" 0 ?A "?B + 1" 0] by auto
      ultimately show ?thesis using v1 True by simp
    next
      case minor: False
      show ?thesis
      proof (cases "?C = 0")
        case True
        have "calculateNextVersion (version_text ?A ?B 100) k = Inr (version_text ?A ?B 101)"
          using calc_text[of ?A ?B 100 k] la lb k100 major minor by simp
        moreover have "version_text ?A ?B 101 \<noteq> version_text ?A ?B 100"
          using version_text_inj[of ?A ?B 101 ?A ?B 100] by auto
        ultimately show ?thesis using v1 major minor True by simp
      next
        case False
        have "calculateNextVersion (version_text ?A ?B (?C + 1)) k = Inr (version_text ?A ?B (?C + 2))"
          using calc_text[of ?A ?B "?C + 1" k] la lb lc major minor by simp
        moreover have "version_text ?A ?B (?C + 2) \<noteq> version_text ?A ?B (?C + 1)"
          using version_text_inj[of ?A ?B "?C + 2" ?A ?B "?C + 1"] by auto
        ultimately show ?thesis using v1 major minor False by simp
      qed
    qed
  qed
qed

lemma script_twice_differs:
  assumes "components_upto (MAX_SAFE_INTEGER - 1) v" and "k \<in> set [''major'', ''minor'', ''patch'']"
  shows "\<exists>v1 v2. upgrade_version_script (Some k) v = Inr v1 \<and>
           upgrade_version_script (Some k) v1 = Inr v2 \<and> v2 \<noteq> v1"
proof -
  from assms(1) obtain a b c where m: "match_version v = Some (a, b, c)"
    and a: "digits_value a \<le> MAX_SAFE_INTEGER - 1"
    and b: "digits_value b \<le> MAX_SAFE_INTEGER - 1"
    and c: "digits_value c \<le> MAX_SAFE_INTEGER - 1"
    by (auto simp: components_upto_def split: option.splits)
  note d = match_version_SomeD[OF m]
  let ?A = "digits_value a" and ?B = "digits_value b" and ?C = "digits_value c"
  have lim: "x \<le> MAX_SAFE_INTEGER - 1 \<Longrightarrow> x \<le> precision_limit \<and> x + 1 \<le> precision_limit \<and>
      next_number x = x + 1 \<and> next_number (x + 1) = x + 2" for x
    by (simp add: MAX_SAFE_INTEGER_def next_number_def precision_limit_def)
  have k100: "100 \<le> precision_limit" "0 \<le> precision_limit" "next_number 100 = 101"
    by (simp_all add: next_number_def precision_limit_def)
  note la = lim[OF a] and lb = lim[OF b] and lc = lim[OF c]
  have dd: "decimal n \<noteq> []" "\<forall>x\<in>set (decimal n). is_digit x" for n
    by (simp_all add: decimal_ne decimal_digits)
  have zz: "''0'' \<noteq> []" "\<forall>x\<in>set ''0''. is_digit x" "digits_value ''0'' = 0"
    by (simp_all add: is_digit_def digits_value_def digit_val_def)
  from assms(2) consider "k = ''major''" | "k = ''minor''" | "k = ''patch''" by auto
  then show ?thesis
  proof cases
    case 1
    have s1: "upgrade_version_script (Some k) v = Inr (decimal (?A + 1) @ ''.0.0'')"
      using script_upto(3)[OF m] la lb lc 1 by simp
    have m1: "match_version (decimal (?A + 1) @ ''.'' @ ''0'' @ ''.'' @ ''0'') =
        Some (decimal (?A + 1), ''0'', ''0'')"
      by (rule match_version_dotted) (simp_all add: dd zz)
    have s2: "upgrade_version_script (Some k) (decimal (?A + 1) @ ''.0.0'') =
        Inr (decimal (?A + 2) @ ''.0.0'')"
      using script_upto(3)[OF m1] la k100 1 by (simp add: digits_value_decimal zz)
    have "decimal (?A + 2) \<noteq> decimal (?A + 1)" using decimal_inj[of "?A + 2" "?A + 1"] by auto
    with s1 s2 show ?thesis by simp
  next
    case 2
    have s1: "upgrade_version_script (Some k) v = Inr (a @ ''.'' @ decimal (?B + 1) @ ''.0'')"
      using script_upto(2)[OF m] la lb lc 2 by simp
    have m1: "match_version (a @ ''.'' @ decimal (?B + 1) @ ''.'' @ ''0'') =
        Some (a, decimal (?B + 1), ''0'')"
      by (rule match_version_dotted) (simp_all add: dd zz d)
    have s2: "upgrade_version_script (Some k) (a @ ''.'' @ decimal (?B + 1) @ ''.0'') =
        Inr (a @ ''.'' @ decimal (?B + 2) @ ''.0'')"
      using script_upto(2)[OF m1] la lb k100 2 by (simp add: digits_value_decimal zz)
    have "decimal (?B + 2) \<noteq> decimal (?B + 1)" using decimal_inj[of "?B + 2" "?B + 1"] by auto
    with s1 s2 show ?thesis by simp
  next
    case 3
    define P where "P = (if ?C < 99 then 100 else ?C + 1)"
    have P: "\<not> P < 99" "P \<le> precision_limit" "next_number P = P + 1"
      using lc k100 by (auto simp: P_def)
    have s1: "upgrade_version_script (Some k) v = Inr (a @ ''.'' @ b @ ''.'' @ decimal P)"
      using script_upto(1)[OF m] la lb lc 3 by (simp add: P_def)
    have m1: "match_version (a @ ''.'' @ b @ ''.'' @ decimal P) = Some (a, b, decimal P)"
      by (rule match_version_dotted) (simp_all add: dd d)
    have s2: "upgrade_version_script (Some k) (a @ ''.'' @ b @ ''.'' @ decimal P) =
        Inr (a @ ''.'' @ b @ ''.'' @ decimal (P + 1))"
      using script_upto(1)[OF m1] la lb P 3 by (simp add: digits_value_decimal)
    have "decimal (P + 1) \<noteq> decimal P" using decimal_inj[of "P + 1" P] by auto
    with s1 s2 show ?thesis by simp
  qed
qed

text \<open>
  Claim C8, for components below \<open>Number.MAX_SAFE_INTEGER\<close>: the second increment of
  the same kind returns a version different from the first, in
  \<open>calculateNextVersion\<close> and in the bump script.
\<close>

theorem increment_not_idempotent:
  assumes "components_upto (MAX_SAFE_INTEGER - 1) v" and "k \<in> set [''major'', ''minor'', ''patch'']"
  shows "(\<exists>v1 v2. calculateNextVersion v (Some k) = Inr v1 \<and>
            calculateNextVersion v1 (Some k) = Inr v2 \<and> v2 \<noteq> v1)
       \<and> (\<exists>v1 v2. upgrade_version_script (Some k) v = Inr v1 \<and>
            upgrade_version_script (Some k) v1 = Inr v2 \<and> v2 \<noteq> v1)"
  using calc_twice_differs[OF assms(1), of "Some k"] script_twice_differs[OF assms] by blast

theorem increment_not_idempotent_witness:
  "components_upto (MAX_SAFE_INTEGER - 1) ''1.2.0'' \<and>
   ''patch'' \<in> set [''major'', ''minor'', ''patch''] \<and>
   (\<exists>v1 v2. calculateNextVersion ''1.2.0'' (Some ''patch'') = Inr v1 \<and>
       calculateNextVersion v1 (Some ''patch'') = Inr v2 \<and> v2 \<noteq> v1) \<and>
   (\<exists>v1 v2. upgrade_version_script (Some ''patch'') ''1.2.0'' = Inr v1 \<and>
       upgrade_version_script (Some ''patch'') v1 = Inr v2 \<and> v2 \<noteq> v1)"
proof -
  have h: "components_upto (MAX_SAFE_INTEGER - 1) ''1.2.0''"
    by (simp add: components_upto_def match_version_def digits1_def expect_dot_def is_digit_def
        digits_value_def digit_val_def MAX_SAFE_INTEGER_def precision_limit_def)
  have k: "''patch'' \<in> set [''major'', ''minor'', ''patch'']" by simp
  from increment_not_idempotent[OF h k] h k show ?thesis by blast
qed

lemma digits_value_limit:
  "digits_value ''9007199254740992'' = precision_limit"
  "digits_value ''9007199254740991'' = MAX_SAFE_INTEGER"
  by (simp_all add: digits_value_def digit_val_def precision_limit_def MAX_SAFE_INTEGER_def)

lemma version_text_limit: "version_text 0 0 precision_limit = ''0.0.9007199254740992''"
  by (simp add: version_text_def decimal_0 precision_limit_numeral decimal_limit)

text \<open>
  At patch \<open>Number.MAX_SAFE_INTEGER\<close> the first increment gives \<open>2 ^ 53\<close>, and there
  the sum \<open>patch + 1\<close> rounds back to \<open>2 ^ 53\<close>: the second increment returns what the
  first returned.
\<close>

theorem increment_stuck_at_precision_limit:
  "match_version ''0.0.9007199254740991'' \<noteq> None \<and>
   calculateNextVersion ''0.0.9007199254740991'' (Some ''patch'') = Inr ''0.0.9007199254740992'' \<and>
   calculateNextVersion ''0.0.9007199254740992'' (Some ''patch'') = Inr ''0.0.9007199254740992''"
proof -
  have m1: "match_version ''0.0.9007199254740991'' = Some (''0'', ''0'', ''9007199254740991'')"
    by (simp add: match_version_def digits1_def expect_dot_def is_digit_def)
  have m2: "match_version ''0.0.9007199254740992'' = Some (''0'', ''0'', ''9007199254740992'')"
    by (simp add: match_version_def digits1_def expect_dot_def is_digit_def)
  have z: "digits_value ''0'' = 0" by (simp add: digits_value_def digit_val_def)
  have n: "next_number precision_limit = precision_limit"
    "next_number MAX_SAFE_INTEGER = precision_limit"
    by (simp_all add: next_number_def MAX_SAFE_INTEGER_def precision_limit_def)
  have p: "precision_limit \<noteq> 0" "MAX_SAFE_INTEGER \<noteq> 0" "MAX_SAFE_INTEGER \<le> precision_limit"
    by (simp_all add: MAX_SAFE_INTEGER_def precision_limit_def)
  have "calculateNextVersion ''0.0.9007199254740991'' (Some ''patch'') =
      Inr (version_text 0 0 precision_limit)"
    using calc_upto[OF m1, of "Some ''patch''"] p by (simp add: z digits_value_limit n)
  moreover have "calculateNextVersion ''0.0.9007199254740992'' (Some ''patch'') =
      Inr (version_text 0 0 precision_limit)"
    using calc_upto[OF m2, of "Some ''patch''"] p by (simp add: z digits_value_limit n)
  ultimately show ?thesis using m1 by (simp add: version_text_limit)
qed

lemma Number_beyond_limit: "Number ''9007199254740993'' = Fin (int precision_limit)"
proof -
  have "digits_value ''9007199254740993'' = Suc precision_limit"
    by (simp add: digits_value_def digit_val_def precision_limit_def)
  then show ?thesis by (simp add: Number_def to_double_def round_nat_limit_1 del: of_nat_Suc)
qed

text \<open>
  The major \<open>2 ^ 53 + 1\<close> is not a Number: it is read as \<open>2 ^ 53\<close>, and the new
  version has another major than the old one.
\<close>

theorem major_beyond_precision_changes:
  "match_version ''9007199254740993.0.0'' \<noteq> None \<and>
   calculateNextVersion ''9007199254740993.0.0'' (Some ''patch'') = Inr ''9007199254740992.0.100''"
proof -
  have m: "match_version ''9007199254740993.0.0'' = Some (''9007199254740993'', ''0'', ''0'')"
    by (simp add: match_version_def digits1_def expect_dot_def is_digit_def)
  have z: "Number ''0'' = Fin (int 0)" by (simp add: Number_def digits_value_def digit_val_def to_double_def round_nat_def)
  have r: "render (Fin (int precision_limit)) (Fin (int 0)) (Fin (int 100)) =
      version_text precision_limit 0 100"
    by (rule render_upto) (simp_all add: precision_limit_def)
  have t: "version_text precision_limit 0 100 = ''9007199254740992.0.100''"
    by (simp add: version_text_def decimal_0 decimal_100 precision_limit_numeral decimal_limit)
  have "calculateNextVersion ''9007199254740993.0.0'' (Some ''patch'') =
      Inr (render (Fin (int precision_limit)) (Fin (int 0)) (Fin (int 100)))"
    by (simp add: calculateNextVersion_def m Number_beyond_limit z del: js_to_string.simps)
  with m show ?thesis by (simp only: r t) simp
qed

text \<open>
  From \<open>10 ^ 21\<close> on a Number prints in exponent notation, and the new version does not
  match the pattern.
\<close>

theorem exponent_notation_breaks_format:
  "match_version ''1000000000000000000000.0.0'' \<noteq> None \<and>
   calculateNextVersion ''1000000000000000000000.0.0'' (Some ''patch'') = Inr ''1e+21.0.100'' \<and>
   match_version ''1e+21.0.100'' = None"
  by (simp add: eval_simps)

text \<open>The first component that no longer prints in plain digits is \<open>print_limit + 1\<close>.\<close>

lemma exponent_notation_from_print_limit:
  "digits_value ''999999999999999934464'' = Suc print_limit"
  "calculateNextVersion ''999999999999999934464.0.0'' (Some ''patch'') = Inr ''1e+21.0.100''"
  by (simp_all add: eval_simps print_limit_def)

end
